theory Spec2Isabelle
  imports Main "HOL-Library.Multiset"
begin

section \<open>Python values used by the crawler\<close>

text \<open>
  Python \<open>str\<close> values are modelled as \<open>string\<close>. Every operation the program applies
  to them (searching for ASCII delimiters, slicing, concatenation, substring tests)
  commutes with UTF-8 encoding, so a \<open>string\<close> can be read as the UTF-8 bytes of the
  Python string.
\<close>

text \<open>\<open>s.startswith(p)\<close>\<close>

definition startswith :: "string \<Rightarrow> string \<Rightarrow> bool" where
  "startswith s p = (take (length p) s = p)"

text \<open>\<open>sub in s\<close>, the substring test of Python strings.\<close>

fun str_contains :: "string \<Rightarrow> string \<Rightarrow> bool" where
  "str_contains sub [] = (sub = [])"
| "str_contains sub (c # cs) = (startswith (c # cs) sub \<or> str_contains sub cs)"

text \<open>
  Exceptions. \<open>ValueError\<close> and every other ordinary failure (transport errors of the
  HTTP client, parser errors) are instances of Python's \<open>Exception\<close>;
  \<open>asyncio.CancelledError\<close> derives from \<open>BaseException\<close> only.
\<close>

datatype exn = ValueError | OtherException string | CancelledError

fun is_Exception :: "exn \<Rightarrow> bool" where
  "is_Exception ValueError = True"
| "is_Exception (OtherException _) = True"
| "is_Exception CancelledError = False"

section \<open>asyncio.Queue\<close>

text \<open>
  The unbounded FIFO queue \<open>asyncio.Queue()\<close>: its deque \<open>_queue\<close> and its counter
  \<open>_unfinished_tasks\<close>. The fields \<open>put_log\<close> and \<open>get_log\<close> are history variables: they
  record the arguments of all \<open>put\<close> calls and the results of all \<open>get\<close> calls, in order.
  No operation reads them.
\<close>

record queue =
  items :: "string list"
  unfinished_tasks :: nat
  put_log :: "string list"
  get_log :: "string list"

definition Queue :: queue where
  "Queue = \<lparr>items = [], unfinished_tasks = 0, put_log = [], get_log = []\<rparr>"

text \<open>\<open>put\<close> on a queue without size bound never waits: it appends and counts the task.\<close>

definition queue_put :: "queue \<Rightarrow> string \<Rightarrow> queue" where
  "queue_put q x = q\<lparr>items := items q @ [x],
                     unfinished_tasks := Suc (unfinished_tasks q),
                     put_log := put_log q @ [x]\<rparr>"

text \<open>\<open>get\<close> returns the oldest item; on an empty queue the caller stays suspended (\<open>None\<close>).\<close>

definition queue_get :: "queue \<Rightarrow> (string \<times> queue) option" where
  "queue_get q = (case items q of
       [] \<Rightarrow> None
     | x # xs \<Rightarrow> Some (x, q\<lparr>items := xs, get_log := get_log q @ [x]\<rparr>))"

text \<open>\<open>task_done\<close> raises \<open>ValueError\<close> when called more often than items were put.\<close>

definition task_done :: "queue \<Rightarrow> exn + queue" where
  "task_done q = (if unfinished_tasks q \<le> 0 then Inl ValueError
                  else Inr (q\<lparr>unfinished_tasks := unfinished_tasks q - 1\<rparr>))"

section \<open>The crawler object\<close>

text \<open>
  \<open>Crawler\<close> and its subclass \<open>SpellReader\<close> share all fields; \<open>cls\<close> is the class of the
  object, on which the overridden methods \<open>put_todo\<close> and \<open>crawl\<close> dispatch. An entry of
  \<open>entries\<close> stands for one data frame: the address and one (language, name, description)
  triple per language.
\<close>

datatype cls = Crawler | SpellReader

type_synonym entry = "string \<times> (string \<times> string \<times> string) list"

record crawler =
  cls :: cls
  start_urls :: "string list"
  todo :: queue
  seen :: "string set"
  done_set :: "string set"
  num_workers :: int
  limit :: int
  total :: int
  langs :: "string list"
  entries :: "entry list"

text \<open>
  \<open>Crawler.__init__\<close>. A Python set is enumerated in some order that the program does not
  control; \<open>start_urls\<close> holds the elements of \<open>set(urls)\<close> in the order in which the
  set enumerates them, and every statement below holds for every such order.
\<close>

definition Crawler_init :: "string list \<Rightarrow> int \<Rightarrow> int \<Rightarrow> crawler" where
  "Crawler_init urls workers lim =
     \<lparr>cls = Crawler, start_urls = remdups urls, todo = Queue, seen = {}, done_set = {},
      num_workers = workers, limit = lim, total = 0, langs = [], entries = []\<rparr>"

text \<open>\<open>SpellReader.__init__\<close>: \<open>super().__init__(client, urls, None, workers, limit=len(urls))\<close>.\<close>

definition SpellReader_init :: "string list \<Rightarrow> string list \<Rightarrow> int \<Rightarrow> crawler" where
  "SpellReader_init urls ls workers =
     (Crawler_init urls workers (int (length urls)))\<lparr>cls := SpellReader, langs := ls\<rparr>"

text \<open>The statements \<open>self.total += 1; await self.todo.put(url)\<close> that end both \<open>put_todo\<close>s.\<close>

definition push :: "crawler \<Rightarrow> string \<Rightarrow> crawler" where
  "push s url = s\<lparr>total := total s + 1, todo := queue_put (todo s) url\<rparr>"

text \<open>\<open>Crawler.put_todo\<close>\<close>

definition put_todo :: "crawler \<Rightarrow> string \<Rightarrow> crawler" where
  "put_todo s url =
     (if total s \<ge> limit s then s
      else if \<not> str_contains ''?p='' url then s
      else push s url)"

text \<open>\<open>SpellReader.put_todo\<close>\<close>

definition SpellReader_put_todo :: "crawler \<Rightarrow> string \<Rightarrow> crawler" where
  "SpellReader_put_todo s url =
     (if total s \<ge> limit s then s
      else push s url)"

text \<open>The call \<open>self.put_todo(url)\<close>, resolved by the class of the object.\<close>

definition self_put_todo :: "crawler \<Rightarrow> string \<Rightarrow> crawler" where
  "self_put_todo s url =
     (case cls s of Crawler \<Rightarrow> put_todo s url | SpellReader \<Rightarrow> SpellReader_put_todo s url)"

text \<open>
  \<open>Crawler.on_found_links\<close>. The argument lists the elements of the set \<open>urls\<close>; the loop
  visits \<open>new = urls - self.seen\<close> in the order of that list.
\<close>

definition on_found_links :: "crawler \<Rightarrow> string list \<Rightarrow> crawler" where
  "on_found_links s urls =
     (let new = filter (\<lambda>u. u \<notin> seen s) (remdups urls);
          s1 = s\<lparr>seen := seen s \<union> set new\<rparr>
      in foldl self_put_todo s1 new)"

section \<open>Visiting one address\<close>

text \<open>
  What the network and the HTML parser give back for one visit is not decided by the
  program: either some call raises, or the visit obtains the links found on the page
  (the result of \<open>parse_links\<close>, used by \<open>Crawler.crawl\<close>) and the name and description
  parsed for each language (used by \<open>SpellReader.crawl\<close>).
\<close>

type_synonym answer = "exn + string list \<times> (string \<times> string) list"

text \<open>
  \<open>Crawler.crawl\<close>. The only suspension points are \<open>asyncio.sleep\<close> and \<open>client.get\<close>;
  everything after them runs without interruption, and nothing before them changes the
  crawler.
\<close>

definition crawl :: "answer \<Rightarrow> crawler \<Rightarrow> string \<Rightarrow> exn + crawler" where
  "crawl a s url =
     (case a of
        Inl e \<Rightarrow> Inl e
      | Inr (found_links, _) \<Rightarrow>
          (let s1 = on_found_links s found_links
           in Inr (s1\<lparr>done_set := insert url (done_set s1)\<rparr>)))"

text \<open>\<open>SpellReader.crawl\<close>\<close>

definition SpellReader_crawl :: "answer \<Rightarrow> crawler \<Rightarrow> string \<Rightarrow> exn + crawler" where
  "SpellReader_crawl a s url =
     (case a of
        Inl e \<Rightarrow> Inl e
      | Inr (_, infos) \<Rightarrow>
          Inr (s\<lparr>entries := entries s @
                 [(url, zip (langs s) infos)]\<rparr>))"

definition self_crawl :: "answer \<Rightarrow> crawler \<Rightarrow> string \<Rightarrow> exn + crawler" where
  "self_crawl a s url =
     (case cls s of Crawler \<Rightarrow> crawl a s url | SpellReader \<Rightarrow> SpellReader_crawl a s url)"

text \<open>
  \<open>Crawler.process_one\<close> runs in two stretches. The first is \<open>url = await self.todo.get()\<close>.
\<close>

definition process_one_get :: "crawler \<Rightarrow> (string \<times> crawler) option" where
  "process_one_get s =
     (case queue_get (todo s) of
        None \<Rightarrow> None
      | Some (url, q) \<Rightarrow> Some (url, s\<lparr>todo := q\<rparr>))"

text \<open>
  The second is the \<open>try\<close> statement: \<open>except Exception\<close> discards instances of
  \<open>Exception\<close>, any other exception goes on to the caller, and \<open>finally\<close> calls
  \<open>task_done\<close> in every case (an exception of \<open>task_done\<close> replaces the pending one).
  The result is the exception that leaves \<open>process_one\<close>, if any, and the crawler.
\<close>

definition process_one_try :: "answer \<Rightarrow> crawler \<Rightarrow> string \<Rightarrow> exn option \<times> crawler" where
  "process_one_try a s url =
     (let (pending, s1) =
            (case self_crawl a s url of
               Inl e \<Rightarrow> (if is_Exception e then None else Some e, s)
             | Inr s' \<Rightarrow> (None, s'))
      in case task_done (todo s1) of
           Inl e \<Rightarrow> (Some e, s1)
         | Inr q \<Rightarrow> (pending, s1\<lparr>todo := q\<rparr>))"

section \<open>The running program\<close>

text \<open>
  A worker task is created by \<open>asyncio.create_task(self.worker())\<close> and first runs at a
  later turn of the event loop. It is then suspended in \<open>todo.get()\<close> or inside
  \<open>crawl(url)\<close>, until it has left its loop: by \<open>return\<close> after a \<open>CancelledError\<close>, or by
  an exception that \<open>worker\<close> does not catch. \<open>must_cancel\<close> says that \<open>cancel()\<close> was
  called on the task and the \<open>CancelledError\<close> is still to be delivered: \<open>Task.cancel\<close>
  only arranges for it to be thrown at the task's next turn.
\<close>

datatype wstatus = Created | Getting | Crawling string | Exited | Crashed exn

record task =
  status :: wstatus
  must_cancel :: bool

text \<open>Where \<open>run\<close> is: not called yet, suspended in \<open>todo.join()\<close>, or returned.\<close>

datatype run_pc = Not_started | Joining | Returned

record program =
  self :: crawler
  workers :: "task list"
  pc :: run_pc

definition program_init :: "crawler \<Rightarrow> program" where
  "program_init s = \<lparr>self = s, workers = [], pc = Not_started\<rparr>"

text \<open>\<open>for worker in workers: worker.cancel()\<close>, after which \<open>run\<close> returns.\<close>

definition cancel :: "task \<Rightarrow> task" where
  "cancel w = (case status w of
       Exited \<Rightarrow> w
     | Crashed _ \<Rightarrow> w
     | _ \<Rightarrow> w\<lparr>must_cancel := True\<rparr>)"

definition run_cancel :: "program \<Rightarrow> program" where
  "run_cancel c = c\<lparr>workers := map cancel (workers c), pc := Returned\<rparr>"

text \<open>
  \<open>Crawler.run\<close> up to \<open>await self.todo.join()\<close>: \<open>join\<close> suspends only if
  \<open>_unfinished_tasks > 0\<close>; otherwise \<open>run\<close> goes on at once.
\<close>

definition run_begin :: "program \<Rightarrow> program" where
  "run_begin c =
     (let s1 = on_found_links (self c) (start_urls (self c));
          c1 = c\<lparr>self := s1,
                 workers := replicate (nat (num_workers s1)) \<lparr>status = Created, must_cancel = False\<rparr>\<rparr>
      in if unfinished_tasks (todo s1) > 0 then c1\<lparr>pc := Joining\<rparr> else run_cancel c1)"

text \<open>
  \<open>Crawler.worker\<close>, for a worker that was visiting \<open>url\<close>, with the answer of the
  network: when \<open>process_one\<close> returns, the loop goes on to the next
  \<open>process_one\<close>; \<open>except asyncio.CancelledError: return\<close> ends the loop; any other
  exception ends the task.
\<close>

definition worker_finish :: "nat \<Rightarrow> answer \<Rightarrow> string \<Rightarrow> program \<Rightarrow> program" where
  "worker_finish i a url c =
     (let (raised, s1) = process_one_try a (self c) url;
          st = (case raised of
                  None \<Rightarrow> Getting
                | Some e \<Rightarrow> if e = CancelledError then Exited else Crashed e)
      in c\<lparr>self := s1, workers := (workers c)[i := (workers c ! i)\<lparr>status := st\<rparr>]\<rparr>)"

definition set_status :: "nat \<Rightarrow> wstatus \<Rightarrow> program \<Rightarrow> program" where
  "set_status i st c = c\<lparr>workers := (workers c)[i := (workers c ! i)\<lparr>status := st\<rparr>]\<rparr>"

text \<open>
  One step of the program is one stretch of code that the event loop runs without
  interruption, from one suspension point to the next. The end of a visit and the
  dequeue after it are separate steps, so every schedule of the event loop is a sequence
  of steps. A visit meets \<open>CancelledError\<close> only when the task was cancelled.
\<close>

inductive step :: "program \<Rightarrow> program \<Rightarrow> bool" where
  run_begins: "pc c = Not_started \<Longrightarrow> step c (run_begin c)"
| join_returns: "pc c = Joining \<Longrightarrow> unfinished_tasks (todo (self c)) = 0 \<Longrightarrow> step c (run_cancel c)"
| worker_starts: "i < length (workers c) \<Longrightarrow> status (workers c ! i) = Created \<Longrightarrow>
     \<not> must_cancel (workers c ! i) \<Longrightarrow> step c (set_status i Getting c)"
| worker_gets: "i < length (workers c) \<Longrightarrow> status (workers c ! i) = Getting \<Longrightarrow>
     \<not> must_cancel (workers c ! i) \<Longrightarrow> process_one_get (self c) = Some (url, s1) \<Longrightarrow>
     step c (set_status i (Crawling url) (c\<lparr>self := s1\<rparr>))"
| worker_visits: "i < length (workers c) \<Longrightarrow> status (workers c ! i) = Crawling url \<Longrightarrow>
     \<not> must_cancel (workers c ! i) \<Longrightarrow> a \<noteq> Inl CancelledError \<Longrightarrow>
     step c (worker_finish i a url c)"
| worker_cancelled: "i < length (workers c) \<Longrightarrow> status (workers c ! i) = Created \<or> status (workers c ! i) = Getting \<Longrightarrow>
     must_cancel (workers c ! i) \<Longrightarrow> step c (set_status i Exited c)"
| visit_cancelled: "i < length (workers c) \<Longrightarrow> status (workers c ! i) = Crawling url \<Longrightarrow>
     must_cancel (workers c ! i) \<Longrightarrow> step c (worker_finish i (Inl CancelledError) url c)"

text \<open>The states a crawl of \<open>s\<close> passes through.\<close>

definition reachable :: "crawler \<Rightarrow> program \<Rightarrow> bool" where
  "reachable s c = step\<^sup>*\<^sup>* (program_init s) c"

text \<open>The addresses that workers are visiting.\<close>

fun visiting :: "task \<Rightarrow> string list" where
  "visiting w = (case status w of Crawling url \<Rightarrow> [url] | _ \<Rightarrow> [])"

definition in_flight :: "program \<Rightarrow> string list" where
  "in_flight c = concat (map visiting (workers c))"

section \<open>Operations on Python strings\<close>

text \<open>\<open>s[:s.find(c)]\<close> and \<open>s[s.find(c) + 1:]\<close> for a character \<open>c\<close> that occurs in \<open>s\<close>; also
  \<open>s.partition(c)[0]\<close> and \<open>s.partition(c)[2]\<close> for every \<open>s\<close>.\<close>

definition before :: "char \<Rightarrow> string \<Rightarrow> string" where
  "before c s = takeWhile (\<lambda>x. x \<noteq> c) s"

definition after :: "char \<Rightarrow> string \<Rightarrow> string" where
  "after c s = drop 1 (dropWhile (\<lambda>x. x \<noteq> c) s)"

text \<open>\<open>s.rfind(c)\<close>: the index of the last occurrence, or -1.\<close>

definition rfind :: "char \<Rightarrow> string \<Rightarrow> int" where
  "rfind c s = (if c \<in> set s
                then int (length s) - 1 - int (length (takeWhile (\<lambda>x. x \<noteq> c) (rev s)))
                else - 1)"

text \<open>\<open>s.split(c)\<close>: the pieces between the occurrences of \<open>c\<close>, at least one piece.\<close>

fun split_on :: "char \<Rightarrow> string \<Rightarrow> string list" where
  "split_on c [] = [[]]"
| "split_on c (x # xs) =
     (if x = c then [] # split_on c xs
      else (x # hd (split_on c xs)) # tl (split_on c xs))"

text \<open>\<open>sep.join(pieces)\<close>\<close>

fun join :: "string \<Rightarrow> string list \<Rightarrow> string" where
  "join sep [] = []"
| "join sep [x] = x"
| "join sep (x # y # ys) = x @ sep @ join sep (y # ys)"

text \<open>\<open>s.lstrip(chars)\<close> and \<open>s.strip(chars)\<close>, for the characters that satisfy \<open>P\<close>.\<close>

definition lstrip :: "(char \<Rightarrow> bool) \<Rightarrow> string \<Rightarrow> string" where
  "lstrip P s = dropWhile P s"

definition strip :: "(char \<Rightarrow> bool) \<Rightarrow> string \<Rightarrow> string" where
  "strip P s = rev (dropWhile P (rev (dropWhile P s)))"

text \<open>\<open>s.isascii()\<close>\<close>

definition isascii :: "string \<Rightarrow> bool" where
  "isascii s = list_all (\<lambda>c. (of_char c :: nat) < 128) s"

text \<open>\<open>c.isascii() and c.isalpha()\<close>\<close>

definition ascii_letters :: string where
  "ascii_letters = ''abcdefghijklmnopqrstuvwxyzABCDEFGHIJKLMNOPQRSTUVWXYZ''"

text \<open>\<open>s.lower()\<close>, for a string \<open>s\<close> of ASCII characters.\<close>

definition lower_char :: "char \<Rightarrow> char" where
  "lower_char c =
     (case map_of (zip ''ABCDEFGHIJKLMNOPQRSTUVWXYZ'' ''abcdefghijklmnopqrstuvwxyz'') c of
        Some d \<Rightarrow> d
      | None \<Rightarrow> c)"

definition lower :: "string \<Rightarrow> string" where
  "lower s = map lower_char s"

section \<open>urllib.parse\<close>

text \<open>
  The functions of Python 3.11's \<open>urllib.parse\<close> that \<open>filter_url\<close> calls, for \<open>str\<close>
  arguments and \<open>allow_fragments=True\<close>. Two functions of other modules that
  \<open>urlsplit\<close> calls are parameters of the model: \<open>unicodedata.normalize('NFKC', s)\<close>,
  and \<open>ipaddress.ip_address(s)\<close>, of which only the kind of the result matters
  (\<open>None\<close> when it raises \<open>ValueError\<close>).
\<close>

datatype ip_version = IPv4 | IPv6

record pylib =
  normalize_NFKC :: "string \<Rightarrow> string"
  ip_address :: "string \<Rightarrow> ip_version option"

definition uses_relative :: "string list" where
  "uses_relative = ['''', ''ftp'', ''http'', ''gopher'', ''nntp'', ''imap'',
                    ''wais'', ''file'', ''https'', ''shttp'', ''mms'',
                    ''prospero'', ''rtsp'', ''rtsps'', ''rtspu'', ''sftp'',
                    ''svn'', ''svn+ssh'', ''ws'', ''wss'']"

definition uses_netloc :: "string list" where
  "uses_netloc = ['''', ''ftp'', ''http'', ''gopher'', ''nntp'', ''telnet'',
                  ''imap'', ''wais'', ''file'', ''mms'', ''https'', ''shttp'',
                  ''snews'', ''prospero'', ''rtsp'', ''rtsps'', ''rtspu'', ''rsync'',
                  ''svn'', ''svn+ssh'', ''sftp'', ''nfs'', ''git'', ''git+ssh'',
                  ''ws'', ''wss'']"

definition uses_params :: "string list" where
  "uses_params = ['''', ''ftp'', ''hdl'', ''prospero'', ''http'', ''imap'',
                  ''https'', ''shttp'', ''rtsp'', ''rtsps'', ''rtspu'', ''sip'',
                  ''sips'', ''mms'', ''sftp'', ''tel'']"

definition scheme_chars :: string where
  "scheme_chars = ''abcdefghijklmnopqrstuvwxyzABCDEFGHIJKLMNOPQRSTUVWXYZ0123456789+-.''"

text \<open>\<open>c in _WHATWG_C0_CONTROL_OR_SPACE\<close>: the characters up to and including the space.\<close>

definition C0_CONTROL_OR_SPACE :: "char \<Rightarrow> bool" where
  "C0_CONTROL_OR_SPACE c = ((of_char c :: nat) \<le> 32)"

text \<open>Removing \<open>_UNSAFE_URL_BYTES_TO_REMOVE\<close>: tab, carriage return and line feed.\<close>

definition remove_unsafe :: "string \<Rightarrow> string" where
  "remove_unsafe s = filter (\<lambda>c. c \<noteq> CHR 0x09 \<and> c \<noteq> CHR 0x0D \<and> c \<noteq> CHR 0x0A) s"

record split_result =
  scheme :: string
  netloc :: string
  path :: string
  query :: string
  fragment :: string

record parse_result = split_result +
  params :: string

text \<open>\<open>_splitnetloc(url, 2)\<close>: the network location ends before the first of \<open>/?#\<close>.\<close>

definition splitnetloc :: "string \<Rightarrow> string \<times> string" where
  "splitnetloc url =
     (takeWhile (\<lambda>c. c \<notin> set ''/?#'') (drop 2 url),
      dropWhile (\<lambda>c. c \<notin> set ''/?#'') (drop 2 url))"

text \<open>\<open>_checknetloc\<close>; \<open>True\<close> when it raises \<open>ValueError\<close>.\<close>

definition checknetloc_raises :: "pylib \<Rightarrow> string \<Rightarrow> bool" where
  "checknetloc_raises L nl =
     (if nl = [] \<or> isascii nl then False
      else (let n = filter (\<lambda>c. c \<notin> set ''@:#?'') nl;
                netloc2 = normalize_NFKC L n
            in if n = netloc2 then False
               else list_ex (\<lambda>c. c \<in> set netloc2) ''/?#@:''))"

text \<open>
  \<open>_check_bracketed_host\<close>; \<open>True\<close> when it raises \<open>ValueError\<close>. The pattern
  \<open>\Av[a-fA-F0-9]+\..+\Z\<close> asks for \<open>v\<close>, hexadecimal digits, a dot, and at least one
  more character, none of them a line feed.
\<close>

definition IPvFuture :: "string \<Rightarrow> bool" where
  "IPvFuture h =
     (let hex = takeWhile (\<lambda>c. c \<in> set ''abcdefABCDEF0123456789'') (drop 1 h);
          rest = dropWhile (\<lambda>c. c \<in> set ''abcdefABCDEF0123456789'') (drop 1 h)
      in hex \<noteq> [] \<and> take 1 rest = ''.'' \<and> drop 1 rest \<noteq> [] \<and> CHR 0x0A \<notin> set (drop 1 rest))"

definition check_bracketed_host_raises :: "pylib \<Rightarrow> string \<Rightarrow> bool" where
  "check_bracketed_host_raises L hostname =
     (if startswith hostname ''v'' then \<not> IPvFuture hostname
      else (case ip_address L hostname of
              None \<Rightarrow> True
            | Some IPv4 \<Rightarrow> True
            | Some IPv6 \<Rightarrow> False))"

text \<open>\<open>urlsplit(url, scheme)\<close>\<close>

definition urlsplit :: "pylib \<Rightarrow> string \<Rightarrow> string \<Rightarrow> exn + split_result" where
  "urlsplit L url0 scheme0 =
     (let url1 = remove_unsafe (lstrip C0_CONTROL_OR_SPACE url0);
          scheme1 = remove_unsafe (strip C0_CONTROL_OR_SPACE scheme0);
          found = (CHR '':'' \<in> set url1 \<and> before CHR '':'' url1 \<noteq> [] \<and> hd url1 \<in> set ascii_letters
                   \<and> list_all (\<lambda>c. c \<in> set scheme_chars) (before CHR '':'' url1));
          scheme2 = (if found then lower (before CHR '':'' url1) else scheme1);
          url2 = (if found then after CHR '':'' url1 else url1);
          nl = (if take 2 url2 = ''//'' then fst (splitnetloc url2) else []);
          url3 = (if take 2 url2 = ''//'' then snd (splitnetloc url2) else url2);
          frag = (if CHR ''#'' \<in> set url3 then after CHR ''#'' url3 else []);
          url4 = (if CHR ''#'' \<in> set url3 then before CHR ''#'' url3 else url3);
          qry = (if CHR ''?'' \<in> set url4 then after CHR ''?'' url4 else []);
          url5 = (if CHR ''?'' \<in> set url4 then before CHR ''?'' url4 else url4)
      in if (CHR ''['' \<in> set nl \<and> CHR '']'' \<notin> set nl) \<or> (CHR '']'' \<in> set nl \<and> CHR ''['' \<notin> set nl)
         then Inl ValueError
         else if CHR ''['' \<in> set nl \<and> CHR '']'' \<in> set nl
                 \<and> check_bracketed_host_raises L (before CHR '']'' (after CHR ''['' nl))
         then Inl ValueError
         else if checknetloc_raises L nl then Inl ValueError
         else Inr \<lparr>scheme = scheme2, netloc = nl, path = url5, query = qry, fragment = frag\<rparr>)"

text \<open>\<open>_splitparams\<close>, which \<open>urlparse\<close> calls for a \<open>url\<close> that contains \<open>;\<close>: the
  parameters start at the first \<open>;\<close> after the last \<open>/\<close>.\<close>

definition splitparams :: "string \<Rightarrow> string \<times> string" where
  "splitparams url =
     (let last_seg = rev (takeWhile (\<lambda>c. c \<noteq> CHR ''/'') (rev url));
          dirs = rev (dropWhile (\<lambda>c. c \<noteq> CHR ''/'') (rev url))
      in if CHR '';'' \<in> set last_seg
         then (dirs @ before CHR '';'' last_seg, after CHR '';'' last_seg)
         else (url, []))"

text \<open>\<open>urlparse(url, scheme)\<close>\<close>

definition urlparse :: "pylib \<Rightarrow> string \<Rightarrow> string \<Rightarrow> exn + parse_result" where
  "urlparse L url scheme0 =
     (case urlsplit L url scheme0 of
        Inl e \<Rightarrow> Inl e
      | Inr r \<Rightarrow>
          (if scheme r \<in> set uses_params \<and> CHR '';'' \<in> set (path r)
           then Inr \<lparr>scheme = scheme r, netloc = netloc r, path = fst (splitparams (path r)),
                     query = query r, fragment = fragment r, params = snd (splitparams (path r))\<rparr>
           else Inr \<lparr>scheme = scheme r, netloc = netloc r, path = path r,
                     query = query r, fragment = fragment r, params = []\<rparr>))"

text \<open>\<open>urlunsplit((scheme, netloc, url, query, fragment))\<close>\<close>

definition urlunsplit :: "string \<Rightarrow> string \<Rightarrow> string \<Rightarrow> string \<Rightarrow> string \<Rightarrow> string" where
  "urlunsplit sch nl url qry frag =
     (let url1 = (if nl \<noteq> [] \<or> (sch \<noteq> [] \<and> sch \<in> set uses_netloc) \<or> take 2 url = ''//''
                  then ''//'' @ nl @ (if url \<noteq> [] \<and> take 1 url \<noteq> ''/'' then ''/'' @ url else url)
                  else url);
          url2 = (if sch \<noteq> [] then sch @ '':'' @ url1 else url1);
          url3 = (if qry \<noteq> [] then url2 @ ''?'' @ qry else url2)
      in if frag \<noteq> [] then url3 @ ''#'' @ frag else url3)"

text \<open>\<open>urlunparse((scheme, netloc, url, params, query, fragment))\<close>\<close>

definition urlunparse :: "string \<Rightarrow> string \<Rightarrow> string \<Rightarrow> string \<Rightarrow> string \<Rightarrow> string \<Rightarrow> string" where
  "urlunparse sch nl url prm qry frag =
     urlunsplit sch nl (if prm \<noteq> [] then url @ '';'' @ prm else url) qry frag"

text \<open>The loop of \<open>urljoin\<close> over the segments: \<open>..\<close> pops, \<open>.\<close> is skipped.\<close>

fun resolve :: "string list \<Rightarrow> string list \<Rightarrow> string list" where
  "resolve resolved_path [] = resolved_path"
| "resolve resolved_path (seg # segs) =
     (if seg = ''..'' then resolve (butlast resolved_path) segs
      else if seg = ''.'' then resolve resolved_path segs
      else resolve (resolved_path @ [seg]) segs)"

text \<open>\<open>segments[1:-1] = filter(None, segments[1:-1])\<close>\<close>

definition filter_inner :: "string list \<Rightarrow> string list" where
  "filter_inner segments =
     (if length segments \<le> 2 then segments
      else hd segments # filter (\<lambda>x. x \<noteq> []) (butlast (tl segments)) @ [last segments])"

text \<open>The path that \<open>urljoin\<close> computes from the path of the base and a relative path.\<close>

definition join_path :: "string \<Rightarrow> string \<Rightarrow> string" where
  "join_path bpath rpath =
     (let base_parts0 = split_on CHR ''/'' bpath;
          base_parts = (if last base_parts0 \<noteq> [] then butlast base_parts0 else base_parts0);
          segments = (if take 1 rpath = ''/'' then split_on CHR ''/'' rpath
                      else filter_inner (base_parts @ split_on CHR ''/'' rpath));
          resolved0 = resolve [] segments;
          resolved_path = (if last segments = ''.'' \<or> last segments = ''..''
                           then resolved0 @ [[]] else resolved0)
      in if join ''/'' resolved_path = [] then ''/'' else join ''/'' resolved_path)"

text \<open>\<open>urljoin(base, url)\<close>\<close>

definition urljoin :: "pylib \<Rightarrow> string \<Rightarrow> string \<Rightarrow> exn + string" where
  "urljoin L base url =
     (if base = [] then Inr url
      else if url = [] then Inr base
      else (case urlparse L base [] of
              Inl e \<Rightarrow> Inl e
            | Inr b \<Rightarrow>
               (case urlparse L url (scheme b) of
                  Inl e \<Rightarrow> Inl e
                | Inr u \<Rightarrow>
                    (if scheme u \<noteq> scheme b \<or> scheme u \<notin> set uses_relative then Inr url
                     else if scheme u \<in> set uses_netloc \<and> netloc u \<noteq> []
                     then Inr (urlunparse (scheme u) (netloc u) (path u) (params u) (query u) (fragment u))
                     else (let nl = (if scheme u \<in> set uses_netloc then netloc b else netloc u)
                           in if path u = [] \<and> params u = []
                              then Inr (urlunparse (scheme u) nl (path b) (params b)
                                         (if query u = [] then query b else query u) (fragment u))
                              else Inr (urlunparse (scheme u) nl (join_path (path b) (path u))
                                         (params u) (query u) (fragment u)))))))"

text \<open>\<open>urldefrag(url)\<close>: the address without its fragment, and the fragment.\<close>

definition urldefrag :: "pylib \<Rightarrow> string \<Rightarrow> exn + string \<times> string" where
  "urldefrag L url =
     (if CHR ''#'' \<in> set url
      then (case urlparse L url [] of
              Inl e \<Rightarrow> Inl e
            | Inr p \<Rightarrow> Inr (urlunparse (scheme p) (netloc p) (path p) (params p) (query p) [],
                             fragment p))
      else Inr (url, []))"

section \<open>pathlib\<close>

text \<open>
  \<open>pathlib.Path(p).name\<close> on a POSIX system: the last component of \<open>p\<close>, where empty
  components and \<open>.\<close> do not count and the root is not a name.
\<close>

definition path_name :: "string \<Rightarrow> string" where
  "path_name p =
     (let rel = lstrip (\<lambda>c. c = CHR ''/'') p;
          parts = filter (\<lambda>x. x \<noteq> [] \<and> x \<noteq> ''.'') (split_on CHR ''/'' rel)
      in if parts = [] then [] else last parts)"

text \<open>\<open>pathlib.Path(p).suffix\<close>\<close>

definition path_suffix :: "string \<Rightarrow> string" where
  "path_suffix p =
     (let name = path_name p; i = rfind CHR ''.'' name
      in if 0 < i \<and> i < int (length name) - 1 then drop (nat i) name else [])"

section \<open>UrlFilterer\<close>

record UrlFilterer =
  allowed_domains :: "string set option"
  allowed_schemes :: "string set option"
  allowed_filetypes :: "string set option"
  blocked_phrases :: "string set option"

text \<open>\<open>UrlFilterer.filter_url\<close>; \<open>Inr None\<close> is the result \<open>None\<close>.\<close>

definition filter_url :: "pylib \<Rightarrow> UrlFilterer \<Rightarrow> string \<Rightarrow> string \<Rightarrow> exn + string option" where
  "filter_url L flt base url0 =
     (case urljoin L base url0 of
        Inl e \<Rightarrow> Inl e
      | Inr url1 \<Rightarrow>
     (case urldefrag L url1 of
        Inl e \<Rightarrow> Inl e
      | Inr (url, frag) \<Rightarrow>
     (case urlparse L url [] of
        Inl e \<Rightarrow> Inl e
      | Inr parsed \<Rightarrow>
         (if allowed_schemes flt \<noteq> None \<and> scheme parsed \<notin> the (allowed_schemes flt)
          then Inr None
          else if allowed_domains flt \<noteq> None \<and> netloc parsed \<notin> the (allowed_domains flt)
          then Inr None
          else (let ext = path_suffix (path parsed)
                in if allowed_filetypes flt \<noteq> None \<and> ext \<notin> the (allowed_filetypes flt)
                   then Inr None
                   else if blocked_phrases flt \<noteq> None
                           \<and> (\<exists>p\<in>the (blocked_phrases flt). str_contains p url)
                   then Inr None
                   else Inr (Some url))))))"

section \<open>Invariants of a crawl\<close>

text \<open>The addresses in flight, as a multiset.\<close>

definition flying :: "program \<Rightarrow> string multiset" where
  "flying c = mset (in_flight c)"

text \<open>
  What holds of the crawler object between any two steps, given the multiset \<open>M\<close> of the
  addresses in flight: the queue is first-in first-out, nothing was put twice, everything
  put was seen, the counter counts the puts and stays at or below the limit (if that is
  not negative), the done addresses were dequeued and are not in flight, and
  \<open>_unfinished_tasks\<close> counts the queued and the in-flight addresses.
\<close>

definition cinv :: "crawler \<Rightarrow> string multiset \<Rightarrow> bool" where
  "cinv s M = (let q = todo s in
     put_log q = get_log q @ items q \<and> distinct (put_log q) \<and> set (put_log q) \<subseteq> seen s \<and>
     total s = int (length (put_log q)) \<and> total s \<le> max 0 (limit s) \<and>
     done_set s \<subseteq> set (get_log q) \<and> done_set s \<inter> set_mset M = {} \<and>
     M \<subseteq># mset (get_log q) \<and>
     unfinished_tasks q = length (items q) + size M \<and>
     finite (seen s) \<and>
     (cls s = Crawler \<longrightarrow> (\<forall>u\<in>set (put_log q). str_contains ''?p='' u)))"

text \<open>The effect of a successful \<open>task_done\<close>.\<close>

definition ack :: "crawler \<Rightarrow> crawler" where
  "ack s = s\<lparr>todo := (todo s)\<lparr>unfinished_tasks := unfinished_tasks (todo s) - 1\<rparr>\<rparr>"

text \<open>The fields that no method assigns.\<close>

definition same_config :: "crawler \<Rightarrow> crawler \<Rightarrow> bool" where
  "same_config s s' = (cls s' = cls s \<and> limit s' = limit s \<and> start_urls s' = start_urls s
      \<and> num_workers s' = num_workers s \<and> seen s \<subseteq> seen s')"

text \<open>A crawler object as \<open>__init__\<close> leaves it.\<close>

definition fresh :: "crawler \<Rightarrow> bool" where
  "fresh s = (todo s = Queue \<and> seen s = {} \<and> done_set s = {} \<and> total s = 0)"

text \<open>
  What holds of the program between any two steps of a crawl of \<open>s0\<close>: no worker has
  crashed; before \<open>run\<close> starts nothing has happened; afterwards the seeds are seen and
  the workers exist; until \<open>run\<close> returns no worker is cancelled or has exited; when it
  has returned, no task is unfinished and every worker is cancelled.
\<close>

definition inv :: "crawler \<Rightarrow> program \<Rightarrow> bool" where
  "inv s0 c = (cinv (self c) (flying c) \<and> same_config s0 (self c)
     \<and> (\<forall>w\<in>set (workers c). \<forall>e. status w \<noteq> Crashed e)
     \<and> (pc c = Not_started \<longrightarrow> c = program_init s0)
     \<and> (pc c \<noteq> Not_started \<longrightarrow>
           set (start_urls s0) \<subseteq> seen (self c) \<and> length (workers c) = nat (num_workers s0))
     \<and> (pc c \<noteq> Returned \<longrightarrow> (\<forall>w\<in>set (workers c). \<not> must_cancel w \<and> status w \<noteq> Exited))
     \<and> (pc c = Returned \<longrightarrow>
           unfinished_tasks (todo (self c)) = 0 \<and> (\<forall>w\<in>set (workers c). must_cancel w)))"

text \<open>\<open>s'\<close> comes from \<open>s\<close> by admitting the addresses \<open>adm\<close>, none of them seen before.\<close>

definition extends :: "crawler \<Rightarrow> crawler \<Rightarrow> string list \<Rightarrow> bool" where
  "extends s s' adm = (put_log (todo s') = put_log (todo s) @ adm
     \<and> items (todo s') = items (todo s) @ adm
     \<and> get_log (todo s') = get_log (todo s)
     \<and> total s' = total s + int (length adm)
     \<and> (adm \<noteq> [] \<longrightarrow> total s + int (length adm) \<le> limit s)
     \<and> set adm \<inter> seen s = {} \<and> seen s \<subseteq> seen s' \<and> limit s' = limit s)"

text \<open>An address that was seen and is neither queued, nor in flight, nor done.\<close>

definition abandoned :: "string \<Rightarrow> program \<Rightarrow> bool" where
  "abandoned u c = (u \<in> seen (self c) \<and> u \<notin> done_set (self c)
      \<and> u \<notin> set (items (todo (self c))) \<and> u \<notin> set (in_flight c))"

section \<open>Example crawls\<close>

text \<open>
  A crawl of two seeds with one worker: \<open>run\<close> admits the seed that has the marker, the
  worker dequeues it, and its visit either finds two links (one of them the seed itself)
  or fails with a timeout.
\<close>

definition example_crawler :: crawler where
  "example_crawler = Crawler_init [''a?p=1'', ''b''] 1 5"

definition example_joining :: program where
  "example_joining = run_begin (program_init example_crawler)"

definition example_visiting :: program where
  "example_visiting =
     set_status 0 (Crawling ''a?p=1'')
       (set_status 0 Getting example_joining
          \<lparr>self := (self example_joining)\<lparr>todo :=
              \<lparr>items = [], unfinished_tasks = 1, put_log = [''a?p=1''], get_log = [''a?p=1'']\<rparr>\<rparr>\<rparr>)"

definition example_visited :: program where
  "example_visited = worker_finish 0 (Inr ([''a?p=1'', ''c?p=2''], [])) ''a?p=1'' example_visiting"

definition example_failed :: program where
  "example_failed = worker_finish 0 (Inl (OtherException ''timeout'')) ''a?p=1'' example_visiting"

text \<open>Two seeds under a limit of one, and the crawl that \<open>main\<close> starts.\<close>

definition cap_example :: crawler where
  "cap_example = Crawler_init [''a?p=1'', ''b?p=2''] 1 1"

definition main_example :: crawler where
  "main_example = Crawler_init [''https://playorna.com/codex/spells/''] 5 250"

section \<open>Definitions for the address filter\<close>

text \<open>
  A library for the examples: normalisation changes nothing and no string is an IP
  address. The examples contain no bracketed host and no character beyond ASCII, so
  neither function is called in them.
\<close>

definition example_lib :: pylib where
  "example_lib = \<lparr>normalize_NFKC = (\<lambda>s. s), ip_address = (\<lambda>h. None)\<rparr>"

text \<open>The filter that \<open>main\<close> builds.\<close>

definition main_filterer :: UrlFilterer where
  "main_filterer = \<lparr>allowed_domains = Some {''playorna.com''},
                     allowed_schemes = Some {''http'', ''https''},
                     allowed_filetypes = Some {''.html'', ''.php'', ''''},
                     blocked_phrases = Some {''lang'', ''releases/''}\<rparr>"

text \<open>
  The intermediate values of \<open>urlsplit\<close>, one by one: the address after stripping, whether
  a scheme was found, and the address after each component has been cut off.
\<close>

definition sp_url1 :: "string \<Rightarrow> string" where
  "sp_url1 u = remove_unsafe (lstrip C0_CONTROL_OR_SPACE u)"

definition sp_found :: "string \<Rightarrow> bool" where
  "sp_found u = (CHR '':'' \<in> set (sp_url1 u) \<and> before CHR '':'' (sp_url1 u) \<noteq> []
      \<and> hd (sp_url1 u) \<in> set ascii_letters
      \<and> list_all (\<lambda>c. c \<in> set scheme_chars) (before CHR '':'' (sp_url1 u)))"

definition sp_scheme :: "string \<Rightarrow> string \<Rightarrow> string" where
  "sp_scheme u sch = (if sp_found u then lower (before CHR '':'' (sp_url1 u))
                      else remove_unsafe (strip C0_CONTROL_OR_SPACE sch))"

definition sp_url2 :: "string \<Rightarrow> string" where
  "sp_url2 u = (if sp_found u then after CHR '':'' (sp_url1 u) else sp_url1 u)"

definition sp_netloc :: "string \<Rightarrow> string" where
  "sp_netloc u = (if take 2 (sp_url2 u) = ''//'' then fst (splitnetloc (sp_url2 u)) else [])"

definition sp_url3 :: "string \<Rightarrow> string" where
  "sp_url3 u = (if take 2 (sp_url2 u) = ''//'' then snd (splitnetloc (sp_url2 u)) else sp_url2 u)"

definition sp_fragment :: "string \<Rightarrow> string" where
  "sp_fragment u = (if CHR ''#'' \<in> set (sp_url3 u) then after CHR ''#'' (sp_url3 u) else [])"

definition sp_url4 :: "string \<Rightarrow> string" where
  "sp_url4 u = (if CHR ''#'' \<in> set (sp_url3 u) then before CHR ''#'' (sp_url3 u) else sp_url3 u)"

definition sp_query :: "string \<Rightarrow> string" where
  "sp_query u = (if CHR ''?'' \<in> set (sp_url4 u) then after CHR ''?'' (sp_url4 u) else [])"

definition sp_path :: "string \<Rightarrow> string" where
  "sp_path u = (if CHR ''?'' \<in> set (sp_url4 u) then before CHR ''?'' (sp_url4 u) else sp_url4 u)"

text \<open>Whether one of the three checks of \<open>urlsplit\<close> on the network location raises.\<close>

definition netloc_raises :: "pylib \<Rightarrow> string \<Rightarrow> bool" where
  "netloc_raises L nl =
     ((CHR ''['' \<in> set nl \<and> CHR '']'' \<notin> set nl) \<or> (CHR '']'' \<in> set nl \<and> CHR ''['' \<notin> set nl)
      \<or> (CHR ''['' \<in> set nl \<and> CHR '']'' \<in> set nl
           \<and> check_bracketed_host_raises L (before CHR '']'' (after CHR ''['' nl)))
      \<or> checknetloc_raises L nl)"

text \<open>The path and the parameters as \<open>urlparse\<close> separates them.\<close>

definition pp_split :: "string \<Rightarrow> string \<Rightarrow> bool" where
  "pp_split u sch = (sp_scheme u sch \<in> set uses_params \<and> CHR '';'' \<in> set (sp_path u))"

definition pp_path :: "string \<Rightarrow> string \<Rightarrow> string" where
  "pp_path u sch = (if pp_split u sch then fst (splitparams (sp_path u)) else sp_path u)"

definition pp_params :: "string \<Rightarrow> string \<Rightarrow> string" where
  "pp_params u sch = (if pp_split u sch then snd (splitparams (sp_path u)) else [])"

text \<open>Strings of ASCII characters other than the square brackets.\<close>

definition plain :: "string \<Rightarrow> bool" where
  "plain s = list_all (\<lambda>c. (of_char c :: nat) < 128 \<and> c \<noteq> CHR ''['' \<and> c \<noteq> CHR '']'') s"

text \<open>What \<open>urljoin\<close> returns once both of its arguments are parsed.\<close>

definition join_parsed :: "parse_result \<Rightarrow> parse_result \<Rightarrow> string \<Rightarrow> string" where
  "join_parsed b u url =
     (if scheme u \<noteq> scheme b \<or> scheme u \<notin> set uses_relative then url
      else if scheme u \<in> set uses_netloc \<and> netloc u \<noteq> []
      then urlunparse (scheme u) (netloc u) (path u) (params u) (query u) (fragment u)
      else if path u = [] \<and> params u = []
      then urlunparse (scheme u) (if scheme u \<in> set uses_netloc then netloc b else netloc u)
             (path b) (params b) (if query u = [] then query b else query u) (fragment u)
      else urlunparse (scheme u) (if scheme u \<in> set uses_netloc then netloc b else netloc u)
             (join_path (path b) (path u)) (params u) (query u) (fragment u))"

text \<open>
  The file extension in the words of the specification: the substring after the last
  \<open>.\<close> in the final path segment, or the empty string if there is none; and the four
  rejection rules with that extension.
\<close>

definition spec_extension :: "string \<Rightarrow> string" where
  "spec_extension p =
     (let segment = last (split_on CHR ''/'' p)
      in if CHR ''.'' \<in> set segment then rev (takeWhile (\<lambda>c. c \<noteq> CHR ''.'') (rev segment)) else [])"

definition spec_rejects :: "UrlFilterer \<Rightarrow> parse_result \<Rightarrow> string \<Rightarrow> bool" where
  "spec_rejects flt parsed resolved =
     ((allowed_schemes flt \<noteq> None \<and> scheme parsed \<notin> the (allowed_schemes flt))
      \<or> (allowed_domains flt \<noteq> None \<and> netloc parsed \<notin> the (allowed_domains flt))
      \<or> (allowed_filetypes flt \<noteq> None \<and> spec_extension (path parsed) \<notin> the (allowed_filetypes flt))
      \<or> (blocked_phrases flt \<noteq> None \<and> (\<exists>p\<in>the (blocked_phrases flt). str_contains p resolved)))"

text \<open>
  \<open>urldefrag\<close> on an address with a fragment: parse, and rebuild without the fragment.
  \<open>filter_rest\<close> is \<open>filter_url\<close> from \<open>urlparse\<close> on.
\<close>

definition defrag_core :: "pylib \<Rightarrow> string \<Rightarrow> exn + string" where
  "defrag_core L x = (case urlparse L x [] of
       Inl e \<Rightarrow> Inl e
     | Inr p \<Rightarrow> Inr (urlunparse (scheme p) (netloc p) (path p) (params p) (query p) []))"

definition filter_rest :: "pylib \<Rightarrow> UrlFilterer \<Rightarrow> string \<Rightarrow> exn + string option" where
  "filter_rest L flt url =
     (case urlparse L url [] of
        Inl e \<Rightarrow> Inl e
      | Inr parsed \<Rightarrow>
         (if allowed_schemes flt \<noteq> None \<and> scheme parsed \<notin> the (allowed_schemes flt)
          then Inr None
          else if allowed_domains flt \<noteq> None \<and> netloc parsed \<notin> the (allowed_domains flt)
          then Inr None
          else (let ext = path_suffix (path parsed)
                in if allowed_filetypes flt \<noteq> None \<and> ext \<notin> the (allowed_filetypes flt)
                   then Inr None
                   else if blocked_phrases flt \<noteq> None
                           \<and> (\<exists>p\<in>the (blocked_phrases flt). str_contains p url)
                   then Inr None
                   else Inr (Some url))))"

definition after_defrag :: "pylib \<Rightarrow> UrlFilterer \<Rightarrow> string \<Rightarrow> exn + string option" where
  "after_defrag L flt x = (case defrag_core L x of Inl e \<Rightarrow> Inl e | Inr d \<Rightarrow> filter_rest L flt d)"

text \<open>The address that \<open>urljoin\<close> rebuilds, without its fragment.\<close>

definition rejoined :: "parse_result \<Rightarrow> parse_result \<Rightarrow> string" where
  "rejoined b u =
     (if scheme u \<in> set uses_netloc \<and> netloc u \<noteq> []
      then urlunparse (scheme u) (netloc u) (path u) (params u) (query u) []
      else if path u = [] \<and> params u = []
      then urlunparse (scheme u) (if scheme u \<in> set uses_netloc then netloc b else netloc u)
             (path b) (params b) (if query u = [] then query b else query u) []
      else urlunparse (scheme u) (if scheme u \<in> set uses_netloc then netloc b else netloc u)
             (join_path (path b) (path u)) (params u) (query u) [])"

text \<open>Strings without \<open>#\<close>.\<close>

definition nohash :: "string \<Rightarrow> bool" where
  "nohash s = (CHR ''#'' \<notin> set s)"

section \<open>Proofs of the invariants\<close>

lemma push_neq: "push s url \<noteq> s"
proof
  assume "push s url = s"
  then have "total (push s url) = total s" by simp
  then show False by (simp add: push_def)
qed

lemma foldl_push_fields:
  "total (foldl push s adm) = total s + int (length adm)"
  "items (todo (foldl push s adm)) = items (todo s) @ adm"
  "put_log (todo (foldl push s adm)) = put_log (todo s) @ adm"
  "get_log (todo (foldl push s adm)) = get_log (todo s)"
  "unfinished_tasks (todo (foldl push s adm)) = unfinished_tasks (todo s) + length adm"
  "seen (foldl push s adm) = seen s"
  "done_set (foldl push s adm) = done_set s"
  "cls (foldl push s adm) = cls s"
  "limit (foldl push s adm) = limit s"
  "start_urls (foldl push s adm) = start_urls s"
  "num_workers (foldl push s adm) = num_workers s"
  by (induction adm arbitrary: s; simp add: push_def queue_put_def)+

lemma self_put_todo_cases:
  "self_put_todo s x = s \<or>
   (self_put_todo s x = push s x \<and> total s < limit s \<and>
    (cls s = Crawler \<longrightarrow> str_contains ''?p='' x))"
  by (cases "cls s") (simp_all add: self_put_todo_def put_todo_def SpellReader_put_todo_def)

lemma foldl_put_todo:
  "\<exists>adm. foldl self_put_todo s new = foldl push s adm
      \<and> set adm \<subseteq> set new \<and> (distinct new \<longrightarrow> distinct adm)
      \<and> (cls s = Crawler \<longrightarrow> (\<forall>u\<in>set adm. str_contains ''?p='' u))
      \<and> (adm \<noteq> [] \<longrightarrow> total s + int (length adm) \<le> limit s)"
proof (induction new arbitrary: s)
  case Nil
  show ?case by (rule exI [of _ "[]"]) simp
next
  case (Cons x xs)
  consider (same) "self_put_todo s x = s"
    | (pushed) "self_put_todo s x = push s x" "total s < limit s"
               "cls s = Crawler \<longrightarrow> str_contains ''?p='' x"
    using self_put_todo_cases [of s x] by blast
  then show ?case
  proof cases
    case same
    from Cons.IH [of s] obtain adm where
      "foldl self_put_todo s xs = foldl push s adm" "set adm \<subseteq> set xs"
      "distinct xs \<longrightarrow> distinct adm" "cls s = Crawler \<longrightarrow> (\<forall>u\<in>set adm. str_contains ''?p='' u)"
      "adm \<noteq> [] \<longrightarrow> total s + int (length adm) \<le> limit s" by blast
    then show ?thesis using same by (intro exI [of _ adm]) auto
  next
    case pushed
    have f: "cls (push s x) = cls s" "total (push s x) = total s + 1" "limit (push s x) = limit s"
      by (simp_all add: push_def)
    from Cons.IH [of "push s x"] obtain adm where
      "foldl self_put_todo (push s x) xs = foldl push (push s x) adm" "set adm \<subseteq> set xs"
      "distinct xs \<longrightarrow> distinct adm" "cls s = Crawler \<longrightarrow> (\<forall>u\<in>set adm. str_contains ''?p='' u)"
      "adm \<noteq> [] \<longrightarrow> total s + 1 + int (length adm) \<le> limit s" unfolding f by blast
    then show ?thesis using pushed by (intro exI [of _ "x # adm"]) auto
  qed
qed

lemma on_found_links_eq:
  "\<exists>adm. on_found_links s urls = foldl push (s\<lparr>seen := seen s \<union> set urls\<rparr>) adm
      \<and> distinct adm \<and> set adm \<subseteq> set urls - seen s
      \<and> (cls s = Crawler \<longrightarrow> (\<forall>u\<in>set adm. str_contains ''?p='' u))
      \<and> (adm \<noteq> [] \<longrightarrow> total s + int (length adm) \<le> limit s)"
proof -
  let ?new = "filter (\<lambda>u. u \<notin> seen s) (remdups urls)"
  let ?s1 = "s\<lparr>seen := seen s \<union> set ?new\<rparr>"
  from foldl_put_todo [of ?s1 ?new] obtain adm where a:
    "foldl self_put_todo ?s1 ?new = foldl push ?s1 adm" "set adm \<subseteq> set ?new"
    "distinct ?new \<longrightarrow> distinct adm" "cls ?s1 = Crawler \<longrightarrow> (\<forall>u\<in>set adm. str_contains ''?p='' u)"
    "adm \<noteq> [] \<longrightarrow> total ?s1 + int (length adm) \<le> limit ?s1" by blast
  have "seen s \<union> set ?new = seen s \<union> set urls" by auto
  then have "?s1 = s\<lparr>seen := seen s \<union> set urls\<rparr>" by simp
  with a show ?thesis
    by (intro exI [of _ adm]) (auto simp: on_found_links_def Let_def)
qed

declare visiting.simps [simp del]

lemma visiting_update:
  "i < length ws \<Longrightarrow>
   mset (concat (map visiting (ws[i := w]))) + mset (visiting (ws ! i))
     = mset (concat (map visiting ws)) + mset (visiting w)"
proof (induction ws arbitrary: i)
  case Nil
  then show ?case by simp
next
  case (Cons a ws)
  show ?case
  proof (cases i)
    case 0
    then show ?thesis by simp
  next
    case (Suc j)
    with Cons.prems have "j < length ws" by simp
    from Cons.IH [OF this] show ?thesis using Suc by (simp add: ac_simps)
  qed
qed

lemma flying_set_status:
  assumes "i < length (workers c)"
  shows "flying (set_status i st c) + mset (visiting (workers c ! i))
         = flying c + mset (visiting ((workers c ! i)\<lparr>status := st\<rparr>))"
  using visiting_update [OF assms] by (simp add: flying_def in_flight_def set_status_def)

lemma cinv_on_found_links:
  assumes "cinv s M"
  shows "cinv (on_found_links s urls) M"
proof -
  from on_found_links_eq [of s urls] obtain adm where a:
    "on_found_links s urls = foldl push (s\<lparr>seen := seen s \<union> set urls\<rparr>) adm"
    "distinct adm" "set adm \<subseteq> set urls - seen s"
    "cls s = Crawler \<longrightarrow> (\<forall>u\<in>set adm. str_contains ''?p='' u)"
    "adm \<noteq> [] \<longrightarrow> total s + int (length adm) \<le> limit s" by blast
  have "adm = [] \<or> adm \<noteq> []" by simp
  with assms a(2-5) show ?thesis
    unfolding a(1) cinv_def Let_def foldl_push_fields
    by (auto simp: subset_iff)
qed

lemma cinvD:
  assumes "cinv s M"
  shows "put_log (todo s) = get_log (todo s) @ items (todo s)"
    "distinct (get_log (todo s))" "distinct (items (todo s))"
    "set (get_log (todo s)) \<inter> set (items (todo s)) = {}"
    "set (get_log (todo s)) \<subseteq> seen s" "set (items (todo s)) \<subseteq> seen s"
    "total s = int (length (put_log (todo s)))" "total s \<le> max 0 (limit s)"
    "done_set s \<subseteq> set (get_log (todo s))" "done_set s \<inter> set_mset M = {}"
    "M \<subseteq># mset (get_log (todo s))"
    "unfinished_tasks (todo s) = length (items (todo s)) + size M"
    "finite (seen s)"
    "cls s = Crawler \<Longrightarrow> u \<in> set (put_log (todo s)) \<Longrightarrow> str_contains ''?p='' u"
  using assms by (auto simp: cinv_def Let_def)

lemma cinv_get:
  assumes "cinv s M" "process_one_get s = Some (u, s1)"
  shows "cinv s1 (add_mset u M)" "u \<notin> done_set s" "u \<notin># M"
proof -
  from assms(2) obtain xs where x: "items (todo s) = u # xs"
    "s1 = s\<lparr>todo := (todo s)\<lparr>items := xs, get_log := get_log (todo s) @ [u]\<rparr>\<rparr>"
    by (auto simp: process_one_get_def queue_get_def split: list.splits)
  note d = cinvD(9) [OF assms(1)] cinvD(11) [OF assms(1)]
  from cinvD(4) [OF assms(1)] have n: "u \<notin> set (get_log (todo s))" by (simp add: x(1))
  with d(1) show "u \<notin> done_set s" by blast
  from n d(2) show "u \<notin># M" by (metis mset_subset_eqD set_mset_mset)
  from assms(1) n show "cinv s1 (add_mset u M)"
    unfolding cinv_def Let_def x by (auto simp: subset_iff dest: mset_subset_eqD)
qed

lemma cinv_distinct_flying:
  assumes "cinv s M" "u \<in># M"
  shows "u \<notin># M - {#u#}" "0 < unfinished_tasks (todo s)" "u \<in> seen s" "u \<notin> done_set s"
        "u \<notin> set (items (todo s))"
proof -
  note d = cinvD(2) [OF assms(1)] cinvD(11) [OF assms(1)]
  have "count (mset (get_log (todo s))) u \<le> 1" using d(1) by (simp add: distinct_count_atmost_1)
  with d(2) have "count M u \<le> 1" by (meson mset_subset_eq_count order_trans)
  then show "u \<notin># M - {#u#}" by (simp add: not_in_iff)
  from assms show "0 < unfinished_tasks (todo s)" by (auto simp: cinv_def Let_def)
  from assms d(2) have g: "u \<in> set (get_log (todo s))" by (metis mset_subset_eqD set_mset_mset)
  with assms(1) show "u \<in> seen s" by (auto simp: cinv_def Let_def)
  from assms show "u \<notin> done_set s" by (auto simp: cinv_def Let_def)
  from cinvD(4) [OF assms(1)] g show "u \<notin> set (items (todo s))" by blast
qed

lemma cinv_task_done:
  assumes "cinv s M" "u \<in># M"
  shows "cinv (s\<lparr>todo := (todo s)\<lparr>unfinished_tasks := unfinished_tasks (todo s) - 1\<rparr>\<rparr>) (M - {#u#})"
proof -
  have "M - {#u#} \<subseteq># mset (get_log (todo s))"
    using cinvD(11) [OF assms(1)] by (meson diff_subset_eq_self subset_mset.order_trans)
  moreover have "size (M - {#u#}) = size M - 1" using assms(2) by (simp add: size_Diff_singleton)
  moreover have "0 < size M" using assms(2) by (metis size_eq_0_iff_empty empty_iff set_mset_empty gr0I)
  moreover have "set_mset (M - {#u#}) \<subseteq> set_mset M" by (meson in_diffD subsetI)
  ultimately show ?thesis using assms(1) unfolding cinv_def Let_def
    by auto
qed

lemma cinv_done_add:
  assumes "cinv s M" "u \<in># M"
  shows "cinv (s\<lparr>done_set := insert u (done_set s),
                todo := (todo s)\<lparr>unfinished_tasks := unfinished_tasks (todo s) - 1\<rparr>\<rparr>) (M - {#u#})"
proof -
  from assms(1) have "M \<subseteq># mset (get_log (todo s))" by (simp add: cinv_def Let_def)
  with assms(2) have g: "u \<in> set (get_log (todo s))" by (metis mset_subset_eqD set_mset_mset)
  from cinv_task_done [OF assms] cinv_distinct_flying(1) [OF assms] g show ?thesis
    unfolding cinv_def Let_def by auto
qed

lemma unfinished_on_found_links:
  "unfinished_tasks (todo s) \<le> unfinished_tasks (todo (on_found_links s urls))"
  using on_found_links_eq [of s urls] by (auto simp: foldl_push_fields)

lemma process_one_try_Inl:
  "0 < unfinished_tasks (todo s) \<Longrightarrow>
   process_one_try (Inl e) s u = (if is_Exception e then None else Some e, ack s)"
  by (cases "cls s")
     (simp_all add: process_one_try_def self_crawl_def crawl_def SpellReader_crawl_def
        task_done_def ack_def)

lemma process_one_try_Crawler:
  assumes "cls s = Crawler" "0 < unfinished_tasks (todo s)"
  shows "process_one_try (Inr (ls, infos)) s u =
     (None, ack ((on_found_links s ls)\<lparr>done_set := insert u (done_set (on_found_links s ls))\<rparr>))"
  using assms unfinished_on_found_links [of s ls]
  by (simp add: process_one_try_def self_crawl_def crawl_def task_done_def ack_def Let_def)

lemma process_one_try_SpellReader:
  assumes "cls s = SpellReader" "0 < unfinished_tasks (todo s)"
  shows "process_one_try (Inr (ls, infos)) s u =
     (None, ack (s\<lparr>entries := entries s @ [(u, zip (langs s) infos)]\<rparr>))"
  using assms
  by (simp add: process_one_try_def self_crawl_def SpellReader_crawl_def task_done_def ack_def)

lemma cinv_entries: "cinv (s\<lparr>entries := x\<rparr>) M = cinv s M"
  by (simp add: cinv_def)

lemma cinv_ack:
  assumes "cinv s M" "u \<in># M"
  shows "cinv (ack s) (M - {#u#})"
  using cinv_task_done [OF assms] by (simp add: ack_def)

lemma cinv_done_ack:
  assumes "cinv s M" "u \<in># M"
  shows "cinv (ack (s\<lparr>done_set := insert u (done_set s)\<rparr>)) (M - {#u#})"
  using cinv_done_add [OF assms] by (simp add: ack_def)

lemma same_config_on_found_links: "same_config s (on_found_links s urls)"
  using on_found_links_eq [of s urls] by (auto simp: same_config_def foldl_push_fields)

lemma process_one_try_cinv:
  assumes "cinv s M" "u \<in># M"
  shows "\<exists>s'. process_one_try a s u = (if a = Inl CancelledError then Some CancelledError else None, s')
           \<and> cinv s' (M - {#u#}) \<and> same_config s s'"
proof -
  note pos = cinv_distinct_flying(2) [OF assms]
  show ?thesis
  proof (cases a)
    case (Inl e)
    have "is_Exception e \<longleftrightarrow> e \<noteq> CancelledError" by (cases e) simp_all
    then show ?thesis using Inl process_one_try_Inl [OF pos, of e u] cinv_ack [OF assms]
      by (auto simp: same_config_def ack_def)
  next
    case (Inr r)
    obtain ls infos where r: "r = (ls, infos)" by (cases r)
    show ?thesis
    proof (cases "cls s")
      case Crawler
      have "cinv (on_found_links s ls) M" by (rule cinv_on_found_links [OF assms(1)])
      from cinv_done_ack [OF this assms(2)] same_config_on_found_links [of s ls]
      show ?thesis using Inr r process_one_try_Crawler [OF Crawler pos, of ls infos u]
        by (auto simp: same_config_def ack_def)
    next
      case SpellReader
      from cinv_ack [OF assms] show ?thesis
        using Inr r process_one_try_SpellReader [OF SpellReader pos, of ls infos u]
        by (auto simp: same_config_def ack_def cinv_def)
    qed
  qed
qed

lemma inv_init: "fresh s \<Longrightarrow> inv s (program_init s)"
  by (simp add: inv_def fresh_def program_init_def cinv_def flying_def in_flight_def Queue_def
      same_config_def)

lemma flying_Crawling:
  assumes "i < length (workers c)" "status (workers c ! i) = Crawling u"
  shows "u \<in># flying c"
proof -
  have "workers c ! i \<in> set (workers c)" using assms(1) by simp
  moreover have "u \<in> set (visiting (workers c ! i))" using assms(2) by (simp add: visiting.simps)
  ultimately show ?thesis unfolding flying_def in_flight_def by auto
qed

lemma flying_no_workers: "\<forall>w\<in>set ws. \<forall>u. status w \<noteq> Crawling u \<Longrightarrow> concat (map visiting ws) = []"
  by (induction ws) (auto simp: visiting.simps split: wstatus.splits)

lemma flying_cancel: "concat (map (visiting \<circ> cancel) ws) = concat (map visiting ws)"
  by (induction ws) (auto simp: visiting.simps cancel_def split: wstatus.splits)

lemma flying_keep:
  assumes "i < length (workers c)" "\<forall>v. status (workers c ! i) \<noteq> Crawling v"
    "\<forall>v. st \<noteq> Crawling v"
  shows "flying (set_status i st c) = flying c"
  using flying_set_status [OF assms(1), of st] assms(2,3)
  by (auto simp: visiting.simps split: wstatus.splits)

lemma flying_add:
  assumes "i < length (workers c)" "\<forall>v. status (workers c ! i) \<noteq> Crawling v"
  shows "flying (set_status i (Crawling u) c) = add_mset u (flying c)"
  using flying_set_status [OF assms(1), of "Crawling u"] assms(2)
  by (auto simp: visiting.simps split: wstatus.splits)

lemma flying_remove:
  assumes "i < length (workers c)" "status (workers c ! i) = Crawling u"
    "\<forall>v. st \<noteq> Crawling v"
  shows "flying (set_status i st c) = flying c - {#u#}"
proof -
  have "flying (set_status i st c) + {#u#} = flying c"
    using flying_set_status [OF assms(1), of st] assms(2,3)
    by (auto simp: visiting.simps split: wstatus.splits)
  then show ?thesis by (metis add_mset_add_single add_mset_remove_trivial)
qed

lemma workers_set_status:
  assumes "w \<in> set (workers (set_status i st c))"
  shows "w \<in> set (workers c) \<or> (w = (workers c ! i)\<lparr>status := st\<rparr>)"
  using assms set_update_subset_insert [of "workers c" i "(workers c ! i)\<lparr>status := st\<rparr>"]
  by (auto simp: set_status_def)

lemma set_status_fields [simp]:
  "self (set_status i st c) = self c" "pc (set_status i st c) = pc c"
  "length (workers (set_status i st c)) = length (workers c)"
  by (simp_all add: set_status_def)

lemma seen_on_found_links: "seen (on_found_links s urls) = seen s \<union> set urls"
  using on_found_links_eq [of s urls] by (auto simp: foldl_push_fields)

lemma same_config_trans: "same_config a b \<Longrightarrow> same_config b c \<Longrightarrow> same_config a c"
  by (auto simp: same_config_def)

lemma flying_run_cancel [simp]: "flying (run_cancel c) = flying c"
  by (simp add: flying_def in_flight_def run_cancel_def flying_cancel)

lemma cancel_must:
  "status w \<noteq> Exited \<Longrightarrow> \<forall>e. status w \<noteq> Crashed e \<Longrightarrow> must_cancel (cancel w)"
  "status (cancel w) = status w"
  by (auto simp: cancel_def split: wstatus.splits)

lemma inv_run_cancel:
  assumes "inv s0 c" "pc c \<noteq> Not_started" "pc c \<noteq> Returned" "unfinished_tasks (todo (self c)) = 0"
  shows "inv s0 (run_cancel c)"
  using assms unfolding inv_def
  by (auto simp: cancel_must) (auto simp: run_cancel_def cancel_must)

lemma inv_run_begin:
  assumes "inv s0 c" "pc c = Not_started"
  shows "inv s0 (run_begin c)"
proof -
  from assms have c: "c = program_init s0" and ci: "cinv s0 {#}"
    by (auto simp: inv_def program_init_def flying_def in_flight_def)
  let ?s1 = "on_found_links s0 (start_urls s0)"
  let ?c1 = "c\<lparr>self := ?s1,
      workers := replicate (nat (num_workers ?s1)) \<lparr>status = Created, must_cancel = False\<rparr>,
      pc := Joining\<rparr>"
  have fl: "flying ?c1 = {#}"
    by (simp add: flying_def in_flight_def flying_no_workers visiting.simps)
  have nw: "num_workers ?s1 = num_workers s0"
    using same_config_on_found_links [of s0 "start_urls s0"] by (simp add: same_config_def)
  have i1: "inv s0 ?c1"
    unfolding inv_def fl
    using cinv_on_found_links [OF ci, of "start_urls s0"] same_config_on_found_links [of s0 "start_urls s0"]
    by (auto simp: seen_on_found_links nw)
  show ?thesis
  proof (cases "unfinished_tasks (todo ?s1) > 0")
    case True
    then have "run_begin c = ?c1" by (simp add: run_begin_def c program_init_def Let_def)
    with i1 show ?thesis by simp
  next
    case False
    then have "run_begin c = run_cancel ?c1"
      by (simp add: run_begin_def c program_init_def Let_def run_cancel_def)
    moreover have "inv s0 (run_cancel ?c1)" using False by (intro inv_run_cancel [OF i1]) simp_all
    ultimately show ?thesis by simp
  qed
qed

lemma inv_set_status:
  assumes "inv s0 c" "i < length (workers c)" "\<forall>v. status (workers c ! i) \<noteq> Crawling v"
    "st = Getting \<or> (st = Exited \<and> pc c = Returned)"
  shows "inv s0 (set_status i st c)"
proof -
  have fl: "flying (set_status i st c) = flying c"
    using flying_keep [OF assms(2), where st = st] assms(3,4) by auto
  have w: "workers c ! i \<in> set (workers c)" using assms(2) by simp
  have p: "pc c \<noteq> Not_started"
    using assms(1,2) by (auto simp: inv_def program_init_def)
  show ?thesis
    using assms(1,4) w p unfolding inv_def fl
    by (auto dest!: workers_set_status)
qed

lemma same_config_get: "process_one_get s = Some (u, s1) \<Longrightarrow> same_config s s1"
  by (auto simp: process_one_get_def queue_get_def same_config_def split: list.splits)

lemma flying_self [simp]: "flying (c\<lparr>self := s\<rparr>) = flying c"
  by (simp add: flying_def in_flight_def)

lemma inv_worker_gets:
  assumes "inv s0 c" "i < length (workers c)" "status (workers c ! i) = Getting"
    "\<not> must_cancel (workers c ! i)" "process_one_get (self c) = Some (u, s1)"
  shows "inv s0 (set_status i (Crawling u) (c\<lparr>self := s1\<rparr>))"
proof -
  let ?c1 = "c\<lparr>self := s1\<rparr>"
  have l: "i < length (workers ?c1)" "\<forall>v. status (workers ?c1 ! i) \<noteq> Crawling v"
    using assms(2,3) by simp_all
  have fl: "flying (set_status i (Crawling u) ?c1) = add_mset u (flying c)"
    using flying_add [OF l] by simp
  have w: "workers c ! i \<in> set (workers c)" using assms(2) by simp
  have p: "pc c \<noteq> Not_started" "pc c \<noteq> Returned"
    using assms(1,2,4) w by (auto simp: inv_def program_init_def)
  have ci: "cinv s1 (add_mset u (flying c))"
    using cinv_get(1) [OF _ assms(5)] assms(1) by (simp add: inv_def)
  have sc: "same_config s0 s1"
    using same_config_trans [OF _ same_config_get [OF assms(5)]] assms(1) by (simp add: inv_def)
  have se: "seen (self c) \<subseteq> seen s1"
    using same_config_get [OF assms(5)] by (simp add: same_config_def)
  show ?thesis
    using assms(1) w p ci sc se unfolding inv_def fl
    by (auto dest!: workers_set_status)
qed

lemma worker_finish_eq:
  "process_one_try a (self c) u = (raised, s1) \<Longrightarrow>
   worker_finish i a u c = set_status i
      (case raised of None \<Rightarrow> Getting | Some e \<Rightarrow> if e = CancelledError then Exited else Crashed e)
      (c\<lparr>self := s1\<rparr>)"
  by (simp add: worker_finish_def set_status_def)

lemma inv_worker_finish:
  assumes "inv s0 c" "i < length (workers c)" "status (workers c ! i) = Crawling u"
    "a = Inl CancelledError \<longleftrightarrow> must_cancel (workers c ! i)"
  shows "inv s0 (worker_finish i a u c)"
proof -
  have ci: "cinv (self c) (flying c)" using assms(1) by (simp add: inv_def)
  have u: "u \<in># flying c" by (rule flying_Crawling [OF assms(2,3)])
  have w: "workers c ! i \<in> set (workers c)" using assms(2) by simp
  have pos: "0 < unfinished_tasks (todo (self c))" by (rule cinv_distinct_flying(2) [OF ci u])
  then have p: "pc c \<noteq> Not_started" "pc c \<noteq> Returned" "\<not> must_cancel (workers c ! i)"
    using assms(1,2) w by (auto simp: inv_def program_init_def)
  with assms(4) have a: "a \<noteq> Inl CancelledError" by simp
  from process_one_try_cinv [OF ci u, of a] a obtain s1 where s1:
    "process_one_try a (self c) u = (None, s1)" "cinv s1 (flying c - {#u#})"
    "same_config (self c) s1" by auto
  let ?c1 = "c\<lparr>self := s1\<rparr>"
  have e: "worker_finish i a u c = set_status i Getting ?c1"
    using worker_finish_eq [OF s1(1)] by simp
  have l: "i < length (workers ?c1)" "status (workers ?c1 ! i) = Crawling u"
    using assms(2,3) by simp_all
  have fl: "flying (set_status i Getting ?c1) = flying c - {#u#}"
    using flying_remove [OF l, where st = Getting] by simp
  have sc: "same_config s0 s1"
    using same_config_trans [OF _ s1(3)] assms(1) by (simp add: inv_def)
  have se: "seen (self c) \<subseteq> seen s1" using s1(3) by (simp add: same_config_def)
  show ?thesis
    using assms(1) w p s1(2) sc se unfolding inv_def e fl
    by (auto dest!: workers_set_status)
qed

lemma inv_step:
  assumes "inv s0 c" "step c c'"
  shows "inv s0 c'"
  using assms(2,1)
proof cases
  case run_begins
  then show ?thesis using inv_run_begin [OF assms(1)] by simp
next
  case join_returns
  then show ?thesis using inv_run_cancel [OF assms(1)] by simp
next
  case (worker_starts i)
  then show ?thesis using inv_set_status [OF assms(1), of i Getting] by simp
next
  case (worker_gets i url s1)
  then show ?thesis using inv_worker_gets [OF assms(1)] by simp
next
  case (worker_visits i url a)
  then show ?thesis using inv_worker_finish [OF assms(1), of i url a] by simp
next
  case (worker_cancelled i)
  have w: "workers c ! i \<in> set (workers c)" using worker_cancelled(2) by simp
  with worker_cancelled(4) assms(1) have "pc c = Returned" by (auto simp: inv_def)
  with worker_cancelled show ?thesis using inv_set_status [OF assms(1), of i Exited] by auto
next
  case (visit_cancelled i url)
  then show ?thesis using inv_worker_finish [OF assms(1), of i url "Inl CancelledError"] by simp
qed

lemma inv_reachable:
  assumes "fresh s0" "reachable s0 c"
  shows "inv s0 c"
  using assms(2) unfolding reachable_def
  by (induction rule: rtranclp_induct) (auto intro: inv_init [OF assms(1)] inv_step)

lemma example_joining_eq:
  "example_joining =
    \<lparr>self = \<lparr>cls = Crawler, start_urls = [''a?p=1'', ''b''],
             todo = \<lparr>items = [''a?p=1''], unfinished_tasks = 1, put_log = [''a?p=1''], get_log = []\<rparr>,
             seen = {''a?p=1'', ''b''}, done_set = {}, num_workers = 1, limit = 5, total = 1,
             langs = [], entries = []\<rparr>,
     workers = [\<lparr>status = Created, must_cancel = False\<rparr>], pc = Joining\<rparr>"
  by (simp add: example_joining_def example_crawler_def run_begin_def program_init_def
      Crawler_init_def on_found_links_def Queue_def self_put_todo_def put_todo_def push_def
      queue_put_def startswith_def Let_def insert_commute del: set_filter)

lemma example_visiting_eq:
  "example_visiting =
    \<lparr>self = \<lparr>cls = Crawler, start_urls = [''a?p=1'', ''b''],
             todo = \<lparr>items = [], unfinished_tasks = 1, put_log = [''a?p=1''], get_log = [''a?p=1'']\<rparr>,
             seen = {''a?p=1'', ''b''}, done_set = {}, num_workers = 1, limit = 5, total = 1,
             langs = [], entries = []\<rparr>,
     workers = [\<lparr>status = Crawling ''a?p=1'', must_cancel = False\<rparr>], pc = Joining\<rparr>"
  by (simp add: example_visiting_def example_joining_eq set_status_def)

lemma example_visited_eq:
  "example_visited =
    \<lparr>self = \<lparr>cls = Crawler, start_urls = [''a?p=1'', ''b''],
             todo = \<lparr>items = [''c?p=2''], unfinished_tasks = 1, put_log = [''a?p=1'', ''c?p=2''],
                     get_log = [''a?p=1'']\<rparr>,
             seen = {''a?p=1'', ''b'', ''c?p=2''}, done_set = {''a?p=1''}, num_workers = 1, limit = 5,
             total = 2, langs = [], entries = []\<rparr>,
     workers = [\<lparr>status = Getting, must_cancel = False\<rparr>], pc = Joining\<rparr>"
  by (simp add: example_visited_def example_visiting_eq worker_finish_def process_one_try_def
      self_crawl_def crawl_def task_done_def
      on_found_links_def self_put_todo_def put_todo_def push_def
      queue_put_def startswith_def Let_def insert_commute del: set_filter)

lemma example_failed_eq:
  "example_failed =
    \<lparr>self = \<lparr>cls = Crawler, start_urls = [''a?p=1'', ''b''],
             todo = \<lparr>items = [], unfinished_tasks = 0, put_log = [''a?p=1''], get_log = [''a?p=1'']\<rparr>,
             seen = {''a?p=1'', ''b''}, done_set = {}, num_workers = 1, limit = 5, total = 1,
             langs = [], entries = []\<rparr>,
     workers = [\<lparr>status = Getting, must_cancel = False\<rparr>], pc = Joining\<rparr>"
  by (simp add: example_failed_def example_visiting_eq worker_finish_def process_one_try_def
      self_crawl_def crawl_def task_done_def)

lemma example_steps:
  "step (program_init example_crawler) example_joining"
  "step example_joining (set_status 0 Getting example_joining)"
  "step (set_status 0 Getting example_joining) example_visiting"
  "step example_visiting example_visited"
  "step example_visiting example_failed"
proof -
  show "step (program_init example_crawler) example_joining"
    unfolding example_joining_def by (rule step.run_begins) (simp add: program_init_def)
  show "step example_joining (set_status 0 Getting example_joining)"
    by (rule step.worker_starts) (simp_all add: example_joining_eq)
  show "step (set_status 0 Getting example_joining) example_visiting"
    unfolding example_visiting_def
    by (rule step.worker_gets)
       (simp_all add: example_joining_eq set_status_def process_one_get_def queue_get_def)
  show "step example_visiting example_visited"
    unfolding example_visited_def
    by (rule step.worker_visits) (simp_all add: example_visiting_eq)
  show "step example_visiting example_failed"
    unfolding example_failed_def
    by (rule step.worker_visits) (simp_all add: example_visiting_eq)
qed

lemma example_reachable:
  "reachable example_crawler example_joining"
  "reachable example_crawler example_visiting"
  "reachable example_crawler example_visited"
  "reachable example_crawler example_failed"
  unfolding reachable_def
  using example_steps by (meson rtranclp.rtrancl_into_rtrancl rtranclp.rtrancl_refl)+

lemma extends_on_found_links: "\<exists>adm. extends s (on_found_links s urls) adm"
proof -
  from on_found_links_eq [of s urls] obtain adm where a:
    "on_found_links s urls = foldl push (s\<lparr>seen := seen s \<union> set urls\<rparr>) adm"
    "set adm \<subseteq> set urls - seen s"
    "adm \<noteq> [] \<longrightarrow> total s + int (length adm) \<le> limit s" by blast
  show ?thesis
    by (rule exI [of _ adm]) (use a(2,3) in \<open>auto simp: extends_def a(1) foldl_push_fields\<close>)
qed

lemma done_on_found_links: "done_set (on_found_links s urls) = done_set s"
  using on_found_links_eq [of s urls] by (auto simp: foldl_push_fields)

lemma extends_try:
  assumes "0 < unfinished_tasks (todo s)" "process_one_try a s u = (r, s')"
  shows "\<exists>adm. extends s s' adm \<and> done_set s \<subseteq> done_set s' \<and> done_set s' \<subseteq> insert u (done_set s)
           \<and> (done_set s' \<noteq> done_set s \<longrightarrow> (\<exists>ls infos. a = Inr (ls, infos)))
           \<and> ((\<exists>e. a = Inl e) \<longrightarrow> adm = [] \<and> s' = ack s)"
proof (cases a)
  case (Inl e)
  with assms process_one_try_Inl [OF assms(1), of e u] have "s' = ack s" by simp
  then show ?thesis using Inl by (intro exI [of _ "[]"]) (auto simp: extends_def ack_def)
next
  case (Inr x)
  obtain ls infos where x: "x = (ls, infos)" by (cases x)
  show ?thesis
  proof (cases "cls s")
    case Crawler
    from extends_on_found_links [of s ls] obtain adm where "extends s (on_found_links s ls) adm" ..
    moreover have "s' = ack ((on_found_links s ls)\<lparr>done_set := insert u (done_set (on_found_links s ls))\<rparr>)"
      using process_one_try_Crawler [OF Crawler assms(1), of ls infos u] assms(2) Inr x by simp
    ultimately show ?thesis using Inr x
      by (intro exI [of _ adm]) (auto simp: extends_def ack_def done_on_found_links)
  next
    case SpellReader
    have "s' = ack (s\<lparr>entries := entries s @ [(u, zip (langs s) infos)]\<rparr>)"
      using process_one_try_SpellReader [OF SpellReader assms(1), of ls infos u] assms(2) Inr x by simp
    then show ?thesis using Inr x by (intro exI [of _ "[]"]) (auto simp: extends_def ack_def)
  qed
qed

lemma fresh_init: "fresh (Crawler_init urls w lim)" "fresh (SpellReader_init urls ls w)"
  by (simp_all add: fresh_def Crawler_init_def SpellReader_init_def)

lemma inv_crawl:
  assumes "s0 = Crawler_init urls w lim \<or> s0 = SpellReader_init urls ls w" "reachable s0 c"
  shows "inv s0 c"
  using assms fresh_init inv_reachable by blast

text \<open>What one step does to the crawler: either it dequeues one address, or it admits some.\<close>

lemma step_self:
  assumes "inv s0 c" "step c c'"
  shows "(\<exists>v s1. process_one_get (self c) = Some (v, s1) \<and> self c' = s1 \<and> flying c' = add_mset v (flying c))
       \<or> (\<exists>adm. extends (self c) (self c') adm \<and> done_set (self c) \<subseteq> done_set (self c')
            \<and> set_mset (flying c') \<subseteq> set_mset (flying c)
            \<and> (\<forall>v. v \<in> done_set (self c') \<longrightarrow> v \<notin> done_set (self c) \<longrightarrow>
                  (\<exists>i ls infos. i < length (workers c) \<and> status (workers c ! i) = Crawling v
                     \<and> c' = worker_finish i (Inr (ls, infos)) v c)))"
  using assms(2,1)
proof cases
  case run_begins
  from extends_on_found_links [of "self c" "start_urls (self c)"] obtain adm
    where "extends (self c) (on_found_links (self c) (start_urls (self c))) adm" ..
  moreover have "flying c = {#}" using run_begins assms(1)
    by (auto simp: inv_def program_init_def flying_def in_flight_def)
  moreover have "self c' = on_found_links (self c) (start_urls (self c))"
    "flying c' = {#}"
    using run_begins
    by (auto simp: run_begin_def Let_def run_cancel_def flying_def in_flight_def flying_cancel
        flying_no_workers visiting.simps cancel_def)
  ultimately show ?thesis by (auto simp: done_on_found_links)
next
  case join_returns
  have "self c' = self c" "flying c' = flying c"
    using join_returns(1) flying_run_cancel [of c] by (simp_all add: run_cancel_def)
  then show ?thesis by (intro disjI2 exI [of _ "[]"]) (simp add: extends_def)
next
  case (worker_starts i)
  then show ?thesis using flying_keep [where i = i and c = c and st = Getting]
    by (intro disjI2 exI [of _ "[]"]) (simp add: extends_def)
next
  case (worker_gets i url s1)
  then show ?thesis using flying_add [where i = i and c = "c\<lparr>self := s1\<rparr>" and u = url] by simp
next
  case (worker_visits i url a)
  have u: "url \<in># flying c" using worker_visits by (intro flying_Crawling)
  have ci: "cinv (self c) (flying c)" using assms(1) by (simp add: inv_def)
  have pos: "0 < unfinished_tasks (todo (self c))"
    by (rule cinv_distinct_flying(2) [OF ci u])
  obtain r s1 where t: "process_one_try a (self c) url = (r, s1)" by fastforce
  from extends_try [OF pos t] obtain adm where a: "extends (self c) s1 adm"
    "done_set (self c) \<subseteq> done_set s1" "done_set s1 \<subseteq> insert url (done_set (self c))"
    "done_set s1 \<noteq> done_set (self c) \<longrightarrow> (\<exists>ls infos. a = Inr (ls, infos))" by blast
  have e: "c' = set_status i (case r of None \<Rightarrow> Getting | Some e \<Rightarrow> if e = CancelledError then Exited else Crashed e) (c\<lparr>self := s1\<rparr>)"
    using worker_finish_eq [OF t] worker_visits(1) by simp
  have "flying c' = flying c - {#url#}"
    unfolding e using worker_visits(2,3) flying_remove [where i = i and c = "c\<lparr>self := s1\<rparr>" and u = url]
    by (auto split: option.splits)
  then have "set_mset (flying c') \<subseteq> set_mset (flying c)" by (metis in_diffD subsetI)
  moreover have "self c' = s1" unfolding e by simp
  moreover have "\<forall>v. v \<in> done_set s1 \<longrightarrow> v \<notin> done_set (self c) \<longrightarrow>
       (\<exists>j ls infos. j < length (workers c) \<and> status (workers c ! j) = Crawling v
           \<and> c' = worker_finish j (Inr (ls, infos)) v c)"
  proof (intro allI impI)
    fix v assume v: "v \<in> done_set s1" "v \<notin> done_set (self c)"
    with a(3) have "v = url" by blast
    moreover from v a(4) obtain ls infos where "a = Inr (ls, infos)" by blast
    ultimately show "\<exists>j ls infos. j < length (workers c) \<and> status (workers c ! j) = Crawling v
           \<and> c' = worker_finish j (Inr (ls, infos)) v c"
      using worker_visits(1-3) by blast
  qed
  ultimately show ?thesis using a(1,2)
    by (intro disjI2 exI [of _ adm]) simp
next
  case (worker_cancelled i)
  then show ?thesis using flying_keep [where i = i and c = c and st = Exited]
    by (intro disjI2 exI [of _ "[]"]) (auto simp: extends_def)
next
  case (visit_cancelled i url)
  have u: "url \<in># flying c" using visit_cancelled by (intro flying_Crawling)
  have ci: "cinv (self c) (flying c)" using assms(1) by (simp add: inv_def)
  have pos: "0 < unfinished_tasks (todo (self c))"
    by (rule cinv_distinct_flying(2) [OF ci u])
  have w: "workers c ! i \<in> set (workers c)" using visit_cancelled(2) by simp
  from pos assms(1) visit_cancelled(4) w have False by (auto simp: inv_def)
  then show ?thesis ..
qed

lemma inv_steps:
  assumes "inv s0 c" "step\<^sup>*\<^sup>* c c'"
  shows "inv s0 c'"
  using assms(2,1) by (induction rule: rtranclp_induct) (auto intro: inv_step)

lemma get_fields:
  assumes "process_one_get s = Some (v, s1)"
  shows "items (todo s) = v # items (todo s1)" "get_log (todo s1) = get_log (todo s) @ [v]"
    "put_log (todo s1) = put_log (todo s)" "seen s1 = seen s" "done_set s1 = done_set s"
    "total s1 = total s" "limit s1 = limit s"
    "unfinished_tasks (todo s1) = unfinished_tasks (todo s)"
  using assms by (auto simp: process_one_get_def queue_get_def split: list.splits)

lemma capped_step:
  assumes "inv s0 c" "step c c'" "limit (self c) \<le> total (self c)"
  shows "total (self c') = total (self c) \<and> limit (self c') = limit (self c)
       \<and> put_log (todo (self c')) = put_log (todo (self c))"
  using step_self [OF assms(1,2)]
proof (elim disjE exE conjE)
  fix v s1 assume "process_one_get (self c) = Some (v, s1)" "self c' = s1"
  then show ?thesis using get_fields [of "self c" v s1] by simp
next
  fix adm assume e: "extends (self c) (self c') adm"
  with assms(3) have "adm = []" by (cases adm) (auto simp: extends_def)
  with e show ?thesis by (simp add: extends_def)
qed

lemma capped_steps:
  assumes "inv s0 c" "step\<^sup>*\<^sup>* c c'" "limit (self c) \<le> total (self c)"
  shows "total (self c') = total (self c) \<and> limit (self c') = limit (self c)
       \<and> put_log (todo (self c')) = put_log (todo (self c))"
  using assms(2,1,3)
proof (induction rule: rtranclp_induct)
  case base
  then show ?case by simp
next
  case (step y z)
  then have "inv s0 y" using inv_steps by blast
  from capped_step [OF this step.hyps(2)] step show ?case by simp
qed

lemma abandoned_step:
  assumes "inv s0 c" "step c c'" "abandoned u c"
  shows "abandoned u c'"
  using step_self [OF assms(1,2)]
proof (elim disjE exE conjE)
  fix v s1 assume g: "process_one_get (self c) = Some (v, s1)" "self c' = s1"
    "flying c' = add_mset v (flying c)"
  from g(3) have "set (in_flight c') = insert v (set (in_flight c))"
    by (metis flying_def set_mset_add_mset_insert set_mset_mset)
  then show ?thesis using assms(3) get_fields [OF g(1)] g(2)
    by (auto simp: abandoned_def)
next
  fix adm assume e: "extends (self c) (self c') adm" "done_set (self c) \<subseteq> done_set (self c')"
    "set_mset (flying c') \<subseteq> set_mset (flying c)"
    "\<forall>v. v \<in> done_set (self c') \<longrightarrow> v \<notin> done_set (self c) \<longrightarrow>
       (\<exists>i ls infos. i < length (workers c) \<and> status (workers c ! i) = Crawling v
           \<and> c' = worker_finish i (Inr (ls, infos)) v c)"
  have f: "set (in_flight c') \<subseteq> set (in_flight c)" using e(3) by (simp add: flying_def)
  have "u \<notin> done_set (self c')"
  proof
    assume "u \<in> done_set (self c')"
    with assms(3) e(4) obtain i where "i < length (workers c)" "status (workers c ! i) = Crawling u"
      by (auto simp: abandoned_def)
    then have "u \<in># flying c" by (rule flying_Crawling)
    with assms(3) show False by (simp add: abandoned_def flying_def)
  qed
  then show ?thesis using assms(3) e(1) f by (auto simp: abandoned_def extends_def)
qed

lemma abandoned_steps:
  assumes "inv s0 c" "step\<^sup>*\<^sup>* c c'" "abandoned u c"
  shows "abandoned u c'"
  using assms(2,1,3)
proof (induction rule: rtranclp_induct)
  case base
  then show ?case by simp
next
  case (step y z)
  then have "inv s0 y" using inv_steps by blast
  from abandoned_step [OF this step.hyps(2)] step show ?case by simp
qed

lemma inv_flight:
  assumes "inv s0 c"
  shows "set (in_flight c) \<subseteq> set (get_log (todo (self c)))"
    "unfinished_tasks (todo (self c)) = length (items (todo (self c))) + length (in_flight c)"
proof -
  have ci: "cinv (self c) (flying c)" using assms by (simp add: inv_def)
  from cinvD(11) [OF ci] show "set (in_flight c) \<subseteq> set (get_log (todo (self c)))"
    by (metis flying_def set_mset_mono set_mset_mset)
  from cinvD(12) [OF ci] show "unfinished_tasks (todo (self c)) = length (items (todo (self c))) + length (in_flight c)"
    by (simp add: flying_def)
qed

lemma crawling_not_cancelled:
  assumes "inv s0 c" "i < length (workers c)" "status (workers c ! i) = Crawling u"
  shows "\<not> must_cancel (workers c ! i)" "0 < unfinished_tasks (todo (self c))" "abandoned u c \<Longrightarrow> False"
    "u \<in> seen (self c)" "u \<notin> done_set (self c)" "u \<notin> set (items (todo (self c)))"
    "u \<notin># flying c - {#u#}"
proof -
  have ci: "cinv (self c) (flying c)" using assms(1) by (simp add: inv_def)
  have u: "u \<in># flying c" by (rule flying_Crawling [OF assms(2,3)])
  note f = cinv_distinct_flying [OF ci u]
  show "0 < unfinished_tasks (todo (self c))" by (rule f(2))
  have w: "workers c ! i \<in> set (workers c)" using assms(2) by simp
  with f(2) assms(1) show "\<not> must_cancel (workers c ! i)" by (auto simp: inv_def program_init_def)
  show "abandoned u c \<Longrightarrow> False" using u by (simp add: abandoned_def flying_def)
  show "u \<in> seen (self c)" "u \<notin> done_set (self c)" "u \<notin> set (items (todo (self c)))"
    "u \<notin># flying c - {#u#}" by (rule f)+
qed

lemma failed_visit_state:
  assumes "inv s0 c" "i < length (workers c)" "status (workers c ! i) = Crawling u" "is_Exception e"
  shows "worker_finish i (Inl e) u c = set_status i Getting (c\<lparr>self := ack (self c)\<rparr>)"
    "abandoned u (worker_finish i (Inl e) u c)"
proof -
  note k = crawling_not_cancelled [OF assms(1-3)]
  have t: "process_one_try (Inl e) (self c) u = (None, ack (self c))"
    using process_one_try_Inl [OF k(2), of e u] assms(4) by simp
  show e: "worker_finish i (Inl e) u c = set_status i Getting (c\<lparr>self := ack (self c)\<rparr>)"
    using worker_finish_eq [OF t] by simp
  have "flying (set_status i Getting (c\<lparr>self := ack (self c)\<rparr>)) = flying c - {#u#}"
    using flying_remove [where i = i and c = "c\<lparr>self := ack (self c)\<rparr>" and u = u and st = Getting] assms(2,3) by simp
  then have "u \<notin> set (in_flight (worker_finish i (Inl e) u c))"
    using k(7) unfolding e by (metis flying_def set_mset_mset)
  then show "abandoned u (worker_finish i (Inl e) u c)"
    using k(4-6) unfolding e by (simp add: abandoned_def ack_def)
qed

lemma get_log_steps:
  assumes "inv s0 c" "step\<^sup>*\<^sup>* c c'"
  shows "set (get_log (todo (self c))) \<subseteq> set (get_log (todo (self c')))"
  using assms(2,1)
proof (induction rule: rtranclp_induct)
  case base
  then show ?case by simp
next
  case (step y z)
  then have "inv s0 y" using inv_steps by blast
  from step_self [OF this step.hyps(2)]
  have "set (get_log (todo (self y))) \<subseteq> set (get_log (todo (self z)))"
    by (auto simp: extends_def dest: get_fields(2))
  with step show ?case by blast
qed

lemma try_acknowledges:
  assumes "0 < unfinished_tasks (todo s)"
  shows "\<exists>s1 q. (self_crawl a s u = Inr s1 \<or> (\<exists>x. a = Inl x) \<and> s1 = s)
           \<and> task_done (todo s1) = Inr q \<and> snd (process_one_try a s u) = s1\<lparr>todo := q\<rparr>"
proof (cases a)
  case (Inl x)
  show ?thesis
    by (rule exI [of _ s], rule exI [of _ "todo (ack s)"])
       (use assms Inl process_one_try_Inl [OF assms, of x u] in \<open>simp add: task_done_def ack_def\<close>)
next
  case (Inr r)
  obtain ls infos where r: "r = (ls, infos)" by (cases r)
  show ?thesis
  proof (cases "cls s")
    case Crawler
    let ?s1 = "(on_found_links s ls)\<lparr>done_set := insert u (done_set (on_found_links s ls))\<rparr>"
    have "self_crawl a s u = Inr ?s1" using Crawler Inr r by (simp add: self_crawl_def crawl_def Let_def)
    moreover have "0 < unfinished_tasks (todo ?s1)" using assms unfinished_on_found_links [of s ls] by simp
    ultimately show ?thesis using process_one_try_Crawler [OF Crawler assms, of ls infos u] Inr r
      by (intro exI [of _ ?s1] exI [of _ "todo (ack ?s1)"]) (simp add: task_done_def ack_def)
  next
    case SpellReader
    let ?s1 = "s\<lparr>entries := entries s @ [(u, zip (langs s) infos)]\<rparr>"
    have "self_crawl a s u = Inr ?s1" using SpellReader Inr r by (simp add: self_crawl_def SpellReader_crawl_def)
    then show ?thesis using process_one_try_SpellReader [OF SpellReader assms, of ls infos u] Inr r assms
      by (intro exI [of _ ?s1] exI [of _ "todo (ack ?s1)"]) (simp add: task_done_def ack_def)
  qed
qed

lemma self_worker_finish: "self (worker_finish i a u c) = snd (process_one_try a (self c) u)"
  by (simp add: worker_finish_def split: prod.splits)

lemma pc_step:
  assumes "step c c'" "pc c' \<noteq> pc c"
  shows "(pc c = Joining \<and> unfinished_tasks (todo (self c)) = 0 \<and> c' = run_cancel c)
       \<or> (pc c = Not_started \<and> c' = run_begin c)"
  using assms by cases (auto simp: set_status_def worker_finish_def split: prod.splits)

lemma run_begin_fields:
  "self (run_begin c) = on_found_links (self c) (start_urls (self c))"
  "length (workers (run_begin c)) = nat (num_workers (self c))"
  "w \<in> set (workers (run_begin c)) \<Longrightarrow> status w = Created"
  using same_config_on_found_links [of "self c" "start_urls (self c)"]
  by (auto simp: run_begin_def Let_def run_cancel_def same_config_def cancel_def split: if_splits)

section \<open>Proofs about the address filter\<close>

lemma startswith_iff: "startswith s p \<longleftrightarrow> (\<exists>b. s = p @ b)"
  unfolding startswith_def by (metis append_eq_conv_conj append_take_drop_id)

lemma str_contains_iff: "str_contains p s \<longleftrightarrow> (\<exists>a b. s = a @ p @ b)"
proof (induction s)
  case Nil
  then show ?case by simp
next
  case (Cons c cs)
  show ?case
  proof
    assume "str_contains p (c # cs)"
    then consider "startswith (c # cs) p" | "str_contains p cs" by auto
    then show "\<exists>a b. c # cs = a @ p @ b"
    proof cases
      case 1
      then obtain b where "c # cs = p @ b" using startswith_iff by blast
      then have "c # cs = [] @ p @ b" by simp
      then show ?thesis by blast
    next
      case 2
      with Cons.IH obtain a b where "cs = a @ p @ b" by blast
      then have "c # cs = (c # a) @ p @ b" by simp
      then show ?thesis by blast
    qed
  next
    assume "\<exists>a b. c # cs = a @ p @ b"
    then obtain a b where e: "c # cs = a @ p @ b" by blast
    show "str_contains p (c # cs)"
    proof (cases a)
      case Nil
      with e have "startswith (c # cs) p" using startswith_iff by auto
      then show ?thesis by simp
    next
      case (Cons x xs)
      with e have "cs = xs @ p @ b" by simp
      with Cons.IH have "str_contains p cs" by blast
      then show ?thesis by simp
    qed
  qed
qed

lemma set_before: "set (before c s) \<subseteq> set s" "c \<notin> set (before c s)"
  unfolding before_def by (auto dest: set_takeWhileD)

lemma set_after: "set (after c s) \<subseteq> set s"
  unfolding after_def by (metis drop_Suc One_nat_def drop0 set_dropWhileD subsetI in_set_dropD)

lemma split_on_nonempty [simp]: "split_on c s \<noteq> []"
  by (induction s) auto

lemma set_split_on: "x \<in> set (split_on c s) \<Longrightarrow> set x \<subseteq> set s"
proof (induction s arbitrary: x)
  case Nil
  then show ?case by simp
next
  case (Cons a s)
  have ne: "split_on c s \<noteq> []" by simp
  then have h: "hd (split_on c s) \<in> set (split_on c s)" by simp
  have t: "set (tl (split_on c s)) \<subseteq> set (split_on c s)" using ne by (simp add: list.set_sel(2) subsetI)
  show ?case
  proof (cases "a = c")
    case True
    with Cons show ?thesis by auto
  next
    case False
    with Cons.prems consider "x = a # hd (split_on c s)" | "x \<in> set (tl (split_on c s))" by auto
    then show ?thesis
    proof cases
      case 1
      have "set (hd (split_on c s)) \<subseteq> set s" by (rule Cons.IH [OF h])
      with 1 show ?thesis by auto
    next
      case 2
      with t have "x \<in> set (split_on c s)" by blast
      from Cons.IH [OF this] show ?thesis by auto
    qed
  qed
qed

lemma set_join: "set (join sep xs) \<subseteq> set sep \<union> (\<Union>x\<in>set xs. set x)"
  by (induction sep xs rule: join.induct) auto

lemma set_resolve: "(\<Union>x\<in>set (resolve acc segs). set x) \<subseteq> (\<Union>x\<in>set acc. set x) \<union> (\<Union>x\<in>set segs. set x)"
proof (induction acc segs rule: resolve.induct)
  case (1 resolved_path)
  then show ?case by simp
next
  case (2 resolved_path seg segs)
  have b: "(\<Union>x\<in>set (butlast resolved_path). set x) \<subseteq> (\<Union>x\<in>set resolved_path. set x)"
    by (auto dest: in_set_butlastD)
  show ?case using 2 b by (auto split: if_splits) blast+
qed

lemma set_filter_inner: "set (filter_inner segs) \<subseteq> set segs"
proof (cases "length segs \<le> 2")
  case True
  then show ?thesis by (simp add: filter_inner_def)
next
  case False
  then have ne: "segs \<noteq> []" "tl segs \<noteq> []" by (cases segs; auto)+
  have "set (butlast (tl segs)) \<subseteq> set segs"
    by (meson in_set_butlastD list.set_sel(2) ne(1) subsetI)
  then show ?thesis using False ne by (auto simp: filter_inner_def)
qed

lemma urlsplit_unfold:
  "urlsplit L u sch =
     (if (CHR ''['' \<in> set (sp_netloc u) \<and> CHR '']'' \<notin> set (sp_netloc u))
          \<or> (CHR '']'' \<in> set (sp_netloc u) \<and> CHR ''['' \<notin> set (sp_netloc u))
      then Inl ValueError
      else if CHR ''['' \<in> set (sp_netloc u) \<and> CHR '']'' \<in> set (sp_netloc u)
              \<and> check_bracketed_host_raises L (before CHR '']'' (after CHR ''['' (sp_netloc u)))
      then Inl ValueError
      else if checknetloc_raises L (sp_netloc u) then Inl ValueError
      else Inr \<lparr>scheme = sp_scheme u sch, netloc = sp_netloc u, path = sp_path u,
                query = sp_query u, fragment = sp_fragment u\<rparr>)"
  unfolding urlsplit_def Let_def sp_scheme_def sp_netloc_def sp_path_def
    sp_query_def sp_fragment_def sp_url4_def sp_url3_def sp_url2_def sp_found_def sp_url1_def
  by (rule refl)

lemma urlsplit_eq:
  "urlsplit L u sch =
     (if netloc_raises L (sp_netloc u) then Inl ValueError
      else Inr \<lparr>scheme = sp_scheme u sch, netloc = sp_netloc u, path = sp_path u,
                query = sp_query u, fragment = sp_fragment u\<rparr>)"
  unfolding urlsplit_unfold netloc_raises_def by auto

lemma urlparse_eq:
  "urlparse L u sch =
     (if netloc_raises L (sp_netloc u) then Inl ValueError
      else Inr \<lparr>scheme = sp_scheme u sch, netloc = sp_netloc u, path = pp_path u sch,
                query = sp_query u, fragment = sp_fragment u, params = pp_params u sch\<rparr>)"
  by (simp add: urlparse_def urlsplit_eq pp_path_def pp_params_def pp_split_def)

lemma lower_scheme_char: "\<forall>c\<in>set scheme_chars. lower_char c \<in> set scheme_chars"
  by code_simp

lemma hash_not_scheme_char: "CHR ''#'' \<notin> set scheme_chars"
  by code_simp

lemma set_remove_unsafe: "set (remove_unsafe s) \<subseteq> set s"
  by (auto simp: remove_unsafe_def)

lemma set_lstrip: "set (lstrip P s) \<subseteq> set s"
  by (auto simp: lstrip_def dest: set_dropWhileD)

lemma set_strip: "set (strip P s) \<subseteq> set s"
  unfolding strip_def by (metis set_dropWhileD set_rev subsetI)

lemma set_sp_url1: "set (sp_url1 u) \<subseteq> set u"
  unfolding sp_url1_def using set_remove_unsafe set_lstrip by blast

lemma set_sp_url2: "set (sp_url2 u) \<subseteq> set u"
  unfolding sp_url2_def using set_sp_url1 [of u] set_after [of "CHR '':''" "sp_url1 u"] by auto

lemma set_splitnetloc:
  "set (fst (splitnetloc s)) \<subseteq> set s" "set (snd (splitnetloc s)) \<subseteq> set s"
  "set (fst (splitnetloc s)) \<inter> set ''/?#'' = {}"
  unfolding splitnetloc_def
  by (auto dest: set_takeWhileD set_dropWhileD in_set_dropD)

lemma set_sp_netloc: "set (sp_netloc u) \<subseteq> set u" "CHR ''#'' \<notin> set (sp_netloc u)"
  unfolding sp_netloc_def using set_sp_url2 [of u] set_splitnetloc [of "sp_url2 u"] by auto

lemma set_sp_url3: "set (sp_url3 u) \<subseteq> set u"
  unfolding sp_url3_def using set_sp_url2 [of u] set_splitnetloc [of "sp_url2 u"] by auto

lemma set_sp_url4: "set (sp_url4 u) \<subseteq> set u" "CHR ''#'' \<notin> set (sp_url4 u)"
  unfolding sp_url4_def using set_sp_url3 [of u] set_before [of "CHR ''#''" "sp_url3 u"] by auto

lemma set_sp_fragment: "set (sp_fragment u) \<subseteq> set u"
  unfolding sp_fragment_def using set_sp_url3 [of u] set_after [of "CHR ''#''" "sp_url3 u"] by auto

lemma set_sp_path: "set (sp_path u) \<subseteq> set (sp_url4 u)"
  unfolding sp_path_def using set_before [of "CHR ''?''" "sp_url4 u"] by auto

lemma set_sp_query: "set (sp_query u) \<subseteq> set (sp_url4 u)"
  unfolding sp_query_def using set_after [of "CHR ''?''" "sp_url4 u"] by auto

lemma set_splitparams:
  "set (fst (splitparams s)) \<subseteq> set s" "set (snd (splitparams s)) \<subseteq> set s"
proof -
  have a: "set (rev (takeWhile (\<lambda>c. c \<noteq> CHR ''/'') (rev s))) \<subseteq> set s"
    by (metis set_rev set_takeWhileD subsetI)
  have b: "set (rev (dropWhile (\<lambda>c. c \<noteq> CHR ''/'') (rev s))) \<subseteq> set s"
    by (metis set_rev set_dropWhileD subsetI)
  show "set (fst (splitparams s)) \<subseteq> set s" "set (snd (splitparams s)) \<subseteq> set s"
    unfolding splitparams_def Let_def
    using a b set_before(1) [of "CHR '';''" "rev (takeWhile (\<lambda>c. c \<noteq> CHR ''/'') (rev s))"]
      set_after [of "CHR '';''" "rev (takeWhile (\<lambda>c. c \<noteq> CHR ''/'') (rev s))"]
    by auto
qed

lemma set_pp: "set (pp_path u sch) \<subseteq> set (sp_url4 u)" "set (pp_params u sch) \<subseteq> set (sp_url4 u)"
  unfolding pp_path_def pp_params_def
  using set_sp_path [of u] set_splitparams [of "sp_path u"] by auto

lemma set_sp_scheme:
  "set (sp_scheme u sch) \<subseteq> set scheme_chars \<union> set sch"
proof (cases "sp_found u")
  case True
  then have "\<forall>c\<in>set (before CHR '':'' (sp_url1 u)). c \<in> set scheme_chars"
    by (simp add: sp_found_def list_all_iff)
  then have "set (lower (before CHR '':'' (sp_url1 u))) \<subseteq> set scheme_chars"
    using lower_scheme_char by (auto simp: lower_def)
  with True show ?thesis by (auto simp: sp_scheme_def)
next
  case False
  then show ?thesis using set_remove_unsafe set_strip by (fastforce simp: sp_scheme_def)
qed

text \<open>The characters of a rebuilt address.\<close>

lemma set_urlunsplit:
  "set (urlunsplit s n u q f) \<subseteq> set s \<union> set n \<union> set u \<union> set q \<union> set f \<union> set ''/:?''
      \<union> (if f = [] then {} else {CHR ''#''})"
  unfolding urlunsplit_def Let_def by auto

lemma set_urlunparse:
  "set (urlunparse s n u p q f) \<subseteq> set s \<union> set n \<union> set u \<union> set p \<union> set q \<union> set f \<union> set ''/:?;''
      \<union> (if f = [] then {} else {CHR ''#''})"
  unfolding urlunparse_def using set_urlunsplit [of s n "if p \<noteq> [] then u @ '';'' @ p else u" q f]
  by (auto split: if_splits)

lemma set_join_path: "set (join_path b r) \<subseteq> set b \<union> set r \<union> {CHR ''/''}"
proof -
  define bp0 where "bp0 = split_on CHR ''/'' b"
  define bp where "bp = (if last bp0 \<noteq> [] then butlast bp0 else bp0)"
  define segs where "segs = (if take 1 r = ''/'' then split_on CHR ''/'' r
                             else filter_inner (bp @ split_on CHR ''/'' r))"
  define res0 where "res0 = resolve [] segs"
  define res where "res = (if last segs = ''.'' \<or> last segs = ''..'' then res0 @ [[]] else res0)"
  have b0: "\<forall>x\<in>set bp0. set x \<subseteq> set b"
    unfolding bp0_def using set_split_on by blast
  have "set bp \<subseteq> set bp0" unfolding bp_def by (auto dest: in_set_butlastD)
  with b0 have bp: "\<forall>x\<in>set bp. set x \<subseteq> set b" by blast
  have rr: "\<forall>x\<in>set (split_on CHR ''/'' r). set x \<subseteq> set r" using set_split_on by blast
  have "set segs \<subseteq> set bp \<union> set (split_on CHR ''/'' r)"
    unfolding segs_def using set_filter_inner [of "bp @ split_on CHR ''/'' r"] by auto
  with bp rr have sg: "\<forall>x\<in>set segs. set x \<subseteq> set b \<union> set r" by blast
  have "(\<Union>x\<in>set res0. set x) \<subseteq> (\<Union>x\<in>set segs. set x)"
    unfolding res0_def using set_resolve [of "[]" segs] by simp
  with sg have r0: "\<forall>x\<in>set res0. set x \<subseteq> set b \<union> set r" by blast
  have "set res \<subseteq> insert [] (set res0)" unfolding res_def by auto
  with r0 have "\<forall>x\<in>set res. set x \<subseteq> set b \<union> set r" by fastforce
  then have j: "set (join ''/'' res) \<subseteq> set b \<union> set r \<union> {CHR ''/''}"
    using set_join [of "''/''" res] by auto
  have "join_path b r = (if join ''/'' res = [] then ''/'' else join ''/'' res)"
    unfolding join_path_def Let_def res_def res0_def segs_def bp_def bp0_def by (rule refl)
  with j show ?thesis by auto
qed

lemma plain_iff: "plain s \<longleftrightarrow> (\<forall>c\<in>set s. (of_char c :: nat) < 128 \<and> c \<noteq> CHR ''['' \<and> c \<noteq> CHR '']'')"
  by (simp add: plain_def list_all_iff)

lemma plain_subset: "plain t \<Longrightarrow> set s \<subseteq> set t \<Longrightarrow> plain s"
  by (auto simp: plain_iff)

lemma plain_append [simp]: "plain (s @ t) \<longleftrightarrow> plain s \<and> plain t"
  by (auto simp: plain_iff)

lemma plain_consts: "plain scheme_chars" "plain ''/:?;#''" "plain []"
  by code_simp+

lemma plain_not_raises: "plain nl \<Longrightarrow> \<not> netloc_raises L nl"
  by (auto simp: netloc_raises_def checknetloc_raises_def plain_iff isascii_def list_all_iff)

lemma plain_pieces:
  assumes "plain u"
  shows "plain (sp_netloc u)" "plain (sp_path u)" "plain (sp_query u)" "plain (sp_fragment u)"
    "plain (pp_path u sch)" "plain (pp_params u sch)" "plain sch \<Longrightarrow> plain (sp_scheme u sch)"
proof -
  note s = plain_subset [OF assms]
  show "plain (sp_netloc u)" by (rule s [OF set_sp_netloc(1)])
  show "plain (sp_fragment u)" by (rule s [OF set_sp_fragment])
  have u4: "plain (sp_url4 u)" by (rule s [OF set_sp_url4(1)])
  show "plain (sp_path u)" "plain (sp_query u)" "plain (pp_path u sch)" "plain (pp_params u sch)"
    using plain_subset [OF u4] set_sp_path set_sp_query set_pp by blast+
  assume "plain sch"
  then have "plain (scheme_chars @ sch)" using plain_consts(1) by simp
  then show "plain (sp_scheme u sch)"
    by (rule plain_subset) (use set_sp_scheme [of u sch] in simp)
qed

lemma plain_urlparse:
  assumes "plain u" "plain sch"
  shows "urlparse L u sch = Inr \<lparr>scheme = sp_scheme u sch, netloc = sp_netloc u, path = pp_path u sch,
                query = sp_query u, fragment = sp_fragment u, params = pp_params u sch\<rparr>"
  using plain_not_raises [OF plain_pieces(1) [OF assms(1)], of L] by (simp add: urlparse_eq)

lemma plain_urlunparse:
  assumes "plain s" "plain n" "plain u" "plain p" "plain q" "plain f"
  shows "plain (urlunparse s n u p q f)"
proof -
  have "plain (s @ n @ u @ p @ q @ f @ ''/:?;#'')" using assms plain_consts(2) by simp
  then show ?thesis
    by (rule plain_subset) (use set_urlunparse [of s n u p q f] in \<open>auto split: if_splits\<close>)
qed

lemma plain_join_path:
  assumes "plain b" "plain r"
  shows "plain (join_path b r)"
proof -
  have "plain (b @ r @ ''/'')" using assms by (auto simp: plain_iff)
  then show ?thesis by (rule plain_subset) (use set_join_path [of b r] in auto)
qed

lemma urljoin_eq:
  "urljoin L base url =
     (if base = [] then Inr url
      else if url = [] then Inr base
      else (case urlparse L base [] of
              Inl e \<Rightarrow> Inl e
            | Inr b \<Rightarrow>
               (case urlparse L url (scheme b) of
                  Inl e \<Rightarrow> Inl e
                | Inr u \<Rightarrow> Inr (join_parsed b u url))))"
  by (simp add: urljoin_def join_parsed_def Let_def split: sum.splits)

lemma plain_join_parsed:
  assumes "plain url" "plain (scheme u)" "plain (netloc u)" "plain (path u)" "plain (params u)"
    "plain (query u)" "plain (fragment u)" "plain (netloc b)" "plain (path b)" "plain (params b)"
    "plain (query b)"
  shows "plain (join_parsed b u url)"
  unfolding join_parsed_def using assms
  by (auto intro!: plain_urlunparse plain_join_path plain_consts(3))

lemma plain_urljoin:
  assumes "plain base" "plain url"
  shows "\<exists>j. urljoin L base url = Inr j \<and> plain j"
proof -
  note pb = plain_pieces [OF assms(1)] and pu = plain_pieces [OF assms(2)]
  have bs: "plain (sp_scheme base [])" by (rule pb(7)) (rule plain_consts(3))
  have us: "plain (sp_scheme url (sp_scheme base []))" by (rule pu(7) [OF bs])
  note e1 = plain_urlparse [OF assms(1) plain_consts(3), of L]
  note e2 = plain_urlparse [OF assms(2) bs, of L]
  let ?b = "\<lparr>scheme = sp_scheme base [], netloc = sp_netloc base, path = pp_path base [],
                query = sp_query base, fragment = sp_fragment base, params = pp_params base []\<rparr>"
  let ?u = "\<lparr>scheme = sp_scheme url (sp_scheme base []), netloc = sp_netloc url,
             path = pp_path url (sp_scheme base []),
             query = sp_query url, fragment = sp_fragment url,
             params = pp_params url (sp_scheme base [])\<rparr>"
  have "plain (join_parsed ?b ?u url)"
    by (rule plain_join_parsed) (simp_all add: assms us pb pu)
  then show ?thesis using assms by (simp add: urljoin_eq e1 e2)
qed

lemma plain_urldefrag:
  assumes "plain u"
  shows "\<exists>d f. urldefrag L u = Inr (d, f) \<and> plain d"
proof -
  note p = plain_pieces [OF assms]
  have s: "plain (sp_scheme u [])" by (rule p(7)) (rule plain_consts(3))
  have "plain (urlunparse (sp_scheme u []) (sp_netloc u) (pp_path u []) (pp_params u []) (sp_query u) [])"
    by (rule plain_urlunparse [OF s p(1) p(5) p(6) p(3) plain_consts(3)])
  then show ?thesis
    using assms by (simp add: urldefrag_def plain_urlparse [OF assms plain_consts(3)])
qed

lemma plain_filter_url:
  assumes "plain base" "plain url"
  shows "\<exists>r. filter_url L flt base url = Inr r"
proof -
  from plain_urljoin [OF assms, of L] obtain j where j: "urljoin L base url = Inr j" "plain j" by blast
  from plain_urldefrag [OF j(2), of L] obtain d f where d: "urldefrag L j = Inr (d, f)" "plain d" by blast
  note e = plain_urlparse [OF d(2) plain_consts(3), of L]
  show ?thesis by (simp add: filter_url_def j(1) d(1) e Let_def)
qed

lemma urldefrag_nohash:
  assumes "urldefrag L u = Inr (d, f)"
  shows "CHR ''#'' \<notin> set d"
proof (cases "CHR ''#'' \<in> set u")
  case False
  with assms show ?thesis by (simp add: urldefrag_def)
next
  case True
  with assms have d: "d = urlunparse (sp_scheme u []) (sp_netloc u) (pp_path u []) (pp_params u []) (sp_query u) []"
    by (simp add: urldefrag_def urlparse_eq split: if_splits)
  have "CHR ''#'' \<notin> set (sp_scheme u [])" using set_sp_scheme [of u "[]"] hash_not_scheme_char by auto
  moreover have "CHR ''#'' \<notin> set (sp_netloc u)" by (rule set_sp_netloc(2))
  moreover have "CHR ''#'' \<notin> set (pp_path u [])" "CHR ''#'' \<notin> set (pp_params u [])" "CHR ''#'' \<notin> set (sp_query u)"
    using set_pp [of u "[]"] set_sp_query [of u] set_sp_url4(2) [of u] by auto
  ultimately show ?thesis unfolding d
    using set_urlunparse [of "sp_scheme u []" "sp_netloc u" "pp_path u []" "pp_params u []" "sp_query u" "[]"]
    by auto
qed

lemma rfind_last:
  assumes "c \<notin> set ext"
  shows "rfind c (stem @ c # ext) = int (length stem)"
proof -
  have "takeWhile (\<lambda>x. x \<noteq> c) (rev ext @ c # rev stem) = rev ext"
    using assms by (simp add: takeWhile_append)
  then show ?thesis by (simp add: rfind_def)
qed

lemma path_suffix_dot:
  assumes "path_name p = stem @ ''.'' @ ext" "CHR ''.'' \<notin> set ext"
  shows "path_suffix p = (if stem \<noteq> [] \<and> ext \<noteq> [] then ''.'' @ ext else [])"
proof -
  have r: "rfind CHR ''.'' (path_name p) = int (length stem)"
    using rfind_last [OF assms(2), of stem] assms(1) by simp
  show ?thesis unfolding path_suffix_def Let_def r by (auto simp: assms(1))
qed

lemma path_suffix_nodot:
  assumes "CHR ''.'' \<notin> set (path_name p)"
  shows "path_suffix p = []"
  using assms by (simp add: path_suffix_def rfind_def)

lemma set_rule: "(x \<noteq> None \<and> v \<notin> the x) \<longleftrightarrow> (\<exists>S. x = Some S \<and> v \<notin> S)"
  by (cases x) simp_all

lemma phrase_rule: "(x \<noteq> None \<and> (\<exists>p\<in>the x. Q p)) \<longleftrightarrow> (\<exists>S. x = Some S \<and> (\<exists>p\<in>S. Q p))"
  by (cases x) simp_all

lemma hash_not_C0: "\<not> C0_CONTROL_OR_SPACE CHR ''#''"
  by (simp add: C0_CONTROL_OR_SPACE_def)

lemma takeWhile_stop:
  assumes "\<not> P x"
  shows "takeWhile P (xs @ x # ys) = takeWhile P xs" "dropWhile P (xs @ x # ys) = dropWhile P xs @ x # ys"
  using assms by (induction xs) auto

lemma before_stop: "c \<in> set a \<Longrightarrow> before c (a @ r) = before c a"
  by (auto simp: before_def takeWhile_append)

lemma after_stop:
  assumes "c \<in> set a"
  shows "after c (a @ r) = after c a @ r"
proof -
  have "dropWhile (\<lambda>x. x \<noteq> c) a \<noteq> []" using assms by (simp add: dropWhile_eq_Nil_conv)
  then obtain y ys where y: "dropWhile (\<lambda>x. x \<noteq> c) a = y # ys" by (cases "dropWhile (\<lambda>x. x \<noteq> c) a") auto
  moreover have "dropWhile (\<lambda>x. x \<noteq> c) (a @ r) = dropWhile (\<lambda>x. x \<noteq> c) a @ r"
    using assms by (auto simp: dropWhile_append)
  ultimately show ?thesis by (simp add: after_def)
qed

lemma before_after_hash:
  assumes "c \<notin> set a"
  shows "before c (a @ c # r) = a" "after c (a @ c # r) = r"
  using assms by (simp_all add: before_def after_def takeWhile_append dropWhile_append)

lemma frag_url1:
  "sp_url1 (c @ CHR ''#'' # f) = sp_url1 c @ CHR ''#'' # remove_unsafe f"
proof -
  have "lstrip C0_CONTROL_OR_SPACE (c @ CHR ''#'' # f) = lstrip C0_CONTROL_OR_SPACE c @ CHR ''#'' # f"
    unfolding lstrip_def
    by (rule takeWhile_stop(2) [of C0_CONTROL_OR_SPACE "CHR ''#''" c f, OF hash_not_C0])
  then show ?thesis by (simp add: sp_url1_def remove_unsafe_def)
qed

lemma frag_found:
  assumes "CHR ''#'' \<notin> set c"
  shows "sp_found (c @ CHR ''#'' # f) = sp_found c"
proof -
  define a where "a = sp_url1 c"
  define r where "r = CHR ''#'' # remove_unsafe f"
  have u: "sp_url1 (c @ CHR ''#'' # f) = a @ r" by (simp add: frag_url1 a_def r_def)
  have na: "CHR ''#'' \<notin> set a" using assms set_sp_url1 [of c] by (auto simp: a_def)
  show ?thesis
  proof (cases "CHR '':'' \<in> set a")
    case True
    then have "a \<noteq> []" by auto
    then have "hd (a @ r) = hd a" by simp
    then show ?thesis using True before_stop [OF True, of r]
      by (simp add: sp_found_def u a_def [symmetric])
  next
    case False
    then have "before CHR '':'' (a @ r) = a @ before CHR '':'' r"
      by (simp add: before_def takeWhile_append)
    moreover have "CHR ''#'' \<in> set (before CHR '':'' r)" by (simp add: r_def before_def)
    ultimately have "\<not> list_all (\<lambda>c. c \<in> set scheme_chars) (before CHR '':'' (a @ r))"
      using hash_not_scheme_char by (auto simp: list_all_iff)
    then show ?thesis using False by (simp add: sp_found_def u a_def [symmetric])
  qed
qed

lemma frag_scheme:
  assumes "CHR ''#'' \<notin> set c"
  shows "sp_scheme (c @ CHR ''#'' # f) sch = sp_scheme c sch"
proof (cases "sp_found c")
  case True
  then have "CHR '':'' \<in> set (sp_url1 c)" by (simp add: sp_found_def)
  from before_stop [OF this] True show ?thesis
    by (simp add: sp_scheme_def frag_found [OF assms] frag_url1)
next
  case False
  then show ?thesis by (simp add: sp_scheme_def frag_found [OF assms])
qed

lemma frag_url2:
  assumes "CHR ''#'' \<notin> set c"
  shows "sp_url2 (c @ CHR ''#'' # f) = sp_url2 c @ CHR ''#'' # remove_unsafe f"
proof (cases "sp_found c")
  case True
  then have "CHR '':'' \<in> set (sp_url1 c)" by (simp add: sp_found_def)
  from after_stop [OF this] True show ?thesis
    by (simp add: sp_url2_def frag_found [OF assms] frag_url1)
next
  case False
  then show ?thesis by (simp add: sp_url2_def frag_found [OF assms] frag_url1)
qed

lemma take2_hash:
  assumes "CHR ''#'' \<notin> set b"
  shows "(take 2 (b @ CHR ''#'' # r) = ''//'') = (take 2 b = ''//'')"
proof (cases b)
  case Nil
  then show ?thesis by simp
next
  case (Cons x xs)
  then show ?thesis by (cases xs) auto
qed

lemma frag_netloc:
  assumes "CHR ''#'' \<notin> set c"
  shows "sp_netloc (c @ CHR ''#'' # f) = sp_netloc c"
    "sp_url3 (c @ CHR ''#'' # f) = sp_url3 c @ CHR ''#'' # remove_unsafe f"
proof -
  define b where "b = sp_url2 c"
  define r where "r = remove_unsafe f"
  have nb: "CHR ''#'' \<notin> set b" using assms set_sp_url2 [of c] by (auto simp: b_def)
  have u: "sp_url2 (c @ CHR ''#'' # f) = b @ CHR ''#'' # r"
    by (simp add: frag_url2 [OF assms] b_def r_def)
  note t = take2_hash [OF nb, of r]
  have s: "take 2 b = ''//'' \<Longrightarrow> splitnetloc (b @ CHR ''#'' # r)
            = (fst (splitnetloc b), snd (splitnetloc b) @ CHR ''#'' # r)"
  proof -
    assume "take 2 b = ''//''"
    then have "length b \<ge> 2" by (metis length_take min.cobounded1 length_Cons list.size(3) One_nat_def Suc_1)
    then have d: "drop 2 (b @ CHR ''#'' # r) = drop 2 b @ CHR ''#'' # r" by simp
    have p: "\<not> (CHR ''#'' \<notin> set ''/?#'')" by simp
    show ?thesis unfolding splitnetloc_def d
      using takeWhile_stop [of "\<lambda>c. c \<notin> set ''/?#''" "CHR ''#''" "drop 2 b" r, OF p] by simp
  qed
  show "sp_netloc (c @ CHR ''#'' # f) = sp_netloc c"
    unfolding sp_netloc_def u t b_def [symmetric] using s by simp
  show "sp_url3 (c @ CHR ''#'' # f) = sp_url3 c @ CHR ''#'' # remove_unsafe f"
    unfolding sp_url3_def u t b_def [symmetric] r_def [symmetric] using s by simp
qed

lemma frag_rest:
  assumes "CHR ''#'' \<notin> set c"
  shows "sp_fragment (c @ CHR ''#'' # f) = remove_unsafe f" "sp_fragment c = []"
    "sp_url4 (c @ CHR ''#'' # f) = sp_url4 c"
    "sp_path (c @ CHR ''#'' # f) = sp_path c" "sp_query (c @ CHR ''#'' # f) = sp_query c"
    "pp_path (c @ CHR ''#'' # f) sch = pp_path c sch" "pp_params (c @ CHR ''#'' # f) sch = pp_params c sch"
proof -
  have n3: "CHR ''#'' \<notin> set (sp_url3 c)" using assms set_sp_url3 [of c] by auto
  show f: "sp_fragment (c @ CHR ''#'' # f) = remove_unsafe f"
    by (simp add: sp_fragment_def frag_netloc(2) [OF assms] before_after_hash(2) [OF n3])
  show "sp_fragment c = []" using n3 by (simp add: sp_fragment_def)
  show u4: "sp_url4 (c @ CHR ''#'' # f) = sp_url4 c"
    using n3 by (simp add: sp_url4_def frag_netloc(2) [OF assms] before_after_hash(1) [OF n3])
  show p: "sp_path (c @ CHR ''#'' # f) = sp_path c" by (simp add: sp_path_def u4)
  show "sp_query (c @ CHR ''#'' # f) = sp_query c" by (simp add: sp_query_def u4)
  show "pp_path (c @ CHR ''#'' # f) sch = pp_path c sch" "pp_params (c @ CHR ''#'' # f) sch = pp_params c sch"
    by (simp_all add: pp_path_def pp_params_def pp_split_def p frag_scheme [OF assms])
qed

lemma frag_urlparse:
  assumes "CHR ''#'' \<notin> set c"
  shows "urlparse L (c @ CHR ''#'' # f) sch =
     (case urlparse L c sch of Inl e \<Rightarrow> Inl e | Inr p \<Rightarrow> Inr (p\<lparr>fragment := remove_unsafe f\<rparr>))"
    "urlparse L c sch = Inr p \<Longrightarrow> fragment p = []"
  by (auto simp: urlparse_eq frag_netloc(1) [OF assms] frag_scheme [OF assms] frag_rest [OF assms]
      split: if_splits)

lemma filter_url_eq:
  "filter_url L flt base u =
     (case urljoin L base u of
        Inl e \<Rightarrow> Inl e
      | Inr j \<Rightarrow> (case urldefrag L j of Inl e \<Rightarrow> Inl e | Inr (d, fr) \<Rightarrow> filter_rest L flt d))"
  unfolding filter_url_def filter_rest_def by (rule refl)

lemma defrag_hash:
  assumes "CHR ''#'' \<notin> set x"
  shows "urldefrag L (x @ CHR ''#'' # f) =
     (case defrag_core L x of Inl e \<Rightarrow> Inl e | Inr d \<Rightarrow> Inr (d, remove_unsafe f))"
  by (simp add: urldefrag_def frag_urlparse(1) [OF assms] defrag_core_def split: sum.splits)

lemma filter_hash:
  assumes "CHR ''#'' \<notin> set x"
  shows "(case urldefrag L (x @ CHR ''#'' # f) of Inl e \<Rightarrow> Inl e | Inr (d, fr) \<Rightarrow> filter_rest L flt d)
     = after_defrag L flt x"
  by (simp add: defrag_hash [OF assms] after_defrag_def split: sum.splits)

lemma unparse_frag:
  "f \<noteq> [] \<Longrightarrow> urlunparse s n u p q f = urlunparse s n u p q [] @ CHR ''#'' # f"
  by (simp add: urlunparse_def urlunsplit_def Let_def)

lemma urlparse_nohash:
  assumes "urlparse L x sch = Inr p" "CHR ''#'' \<notin> set sch"
  shows "CHR ''#'' \<notin> set (scheme p)" "CHR ''#'' \<notin> set (netloc p)" "CHR ''#'' \<notin> set (path p)"
    "CHR ''#'' \<notin> set (params p)" "CHR ''#'' \<notin> set (query p)"
proof -
  from assms(1) have p: "scheme p = sp_scheme x sch" "netloc p = sp_netloc x" "path p = pp_path x sch"
    "params p = pp_params x sch" "query p = sp_query x"
    by (auto simp: urlparse_eq split: if_splits)
  show "CHR ''#'' \<notin> set (scheme p)"
    using set_sp_scheme [of x sch] hash_not_scheme_char assms(2) unfolding p by auto
  show "CHR ''#'' \<notin> set (netloc p)" unfolding p by (rule set_sp_netloc(2))
  show "CHR ''#'' \<notin> set (path p)" "CHR ''#'' \<notin> set (params p)" "CHR ''#'' \<notin> set (query p)"
    unfolding p using set_pp [of x sch] set_sp_query [of x] set_sp_url4(2) [of x] by auto
qed

lemma join_parsed_frag:
  assumes "f \<noteq> []"
  shows "join_parsed b (u\<lparr>fragment := f\<rparr>) url =
     (if scheme u \<noteq> scheme b \<or> scheme u \<notin> set uses_relative then url
      else rejoined b u @ CHR ''#'' # f)"
  by (simp add: join_parsed_def rejoined_def unparse_frag [OF assms])

lemma nohash_urlunparse:
  assumes "nohash s" "nohash n" "nohash x" "nohash p" "nohash q"
  shows "nohash (urlunparse s n x p q [])"
  using set_urlunparse [of s n x p q "[]"] assms by (auto simp: nohash_def)

lemma nohash_join_path: "nohash b \<Longrightarrow> nohash r \<Longrightarrow> nohash (join_path b r)"
  using set_join_path [of b r] by (auto simp: nohash_def)

lemma rejoined_nohash:
  assumes "nohash (scheme u)" "nohash (netloc u)" "nohash (path u)"
    "nohash (params u)" "nohash (query u)"
    "nohash (netloc b)" "nohash (path b)" "nohash (params b)" "nohash (query b)"
  shows "nohash (rejoined b u)"
  unfolding rejoined_def using assms
  by (auto intro!: nohash_urlunparse nohash_join_path)

lemma filter_url_frag:
  assumes "CHR ''#'' \<notin> set c" "remove_unsafe f \<noteq> []"
  shows "filter_url L flt base (c @ CHR ''#'' # f) =
     (if base = [] then after_defrag L flt c
      else case urlparse L base [] of
             Inl e \<Rightarrow> Inl e
           | Inr b \<Rightarrow>
              (case urlparse L c (scheme b) of
                 Inl e \<Rightarrow> Inl e
               | Inr u \<Rightarrow>
                   if scheme u \<noteq> scheme b \<or> scheme u \<notin> set uses_relative
                   then after_defrag L flt c
                   else after_defrag L flt (rejoined b u)))"
proof (cases "base = []")
  case True
  then show ?thesis by (simp add: filter_url_eq urljoin_eq filter_hash [OF assms(1)])
next
  case False
  show ?thesis
  proof (cases "urlparse L base []")
    case (Inl e)
    with False show ?thesis by (simp add: filter_url_eq urljoin_eq)
  next
    case b: (Inr b)
    have hb: "CHR ''#'' \<notin> set (scheme b)" "nohash (netloc b)" "nohash (path b)"
      "nohash (params b)" "nohash (query b)"
      using urlparse_nohash [OF b] by (simp_all add: nohash_def)
    show ?thesis
    proof (cases "urlparse L c (scheme b)")
      case (Inl e)
      with False b show ?thesis
        by (simp add: filter_url_eq urljoin_eq frag_urlparse(1) [OF assms(1)])
    next
      case u: (Inr u)
      have hu: "nohash (scheme u)" "nohash (netloc u)" "nohash (path u)"
        "nohash (params u)" "nohash (query u)"
        using urlparse_nohash [OF u hb(1)] by (simp_all add: nohash_def)
      have nr: "CHR ''#'' \<notin> set (rejoined b u)"
        using rejoined_nohash [OF hu hb(2-5)] by (simp add: nohash_def)
      have j: "urljoin L base (c @ CHR ''#'' # f) =
          Inr (if scheme u \<noteq> scheme b \<or> scheme u \<notin> set uses_relative then c @ CHR ''#'' # f
               else rejoined b u @ CHR ''#'' # remove_unsafe f)"
        using False b u join_parsed_frag [OF assms(2), of b u "c @ CHR ''#'' # f"]
        by (simp add: urljoin_eq frag_urlparse(1) [OF assms(1)])
      show ?thesis
        using False b u filter_hash [OF assms(1), where L = L and f = f and flt = flt]
          filter_hash [OF nr, where L = L and f = "remove_unsafe f" and flt = flt]
        by (simp add: filter_url_eq j)
    qed
  qed
qed

lemma filter_url_nohash:
  assumes "filter_url L flt base candidate = Inr (Some r)"
  shows "CHR ''#'' \<notin> set r"
proof -
  from assms obtain j d fr where d: "urldefrag L j = Inr (d, fr)" and r: "filter_rest L flt d = Inr (Some r)"
    by (auto simp: filter_url_eq split: sum.splits)
  from r have "r = d" by (auto simp: filter_rest_def Let_def split: sum.splits if_splits)
  with urldefrag_nohash [OF d] show ?thesis by simp
qed

section \<open>The claims\<close>

text \<open>
  C4. Admission pushes an address to the frontier and increments the counter iff the
  address passes the predicate of the variant and the counter is below the limit; in every
  other case the crawler is unchanged. The predicate of \<open>Crawler\<close> is that the address
  contains \<open>?p=\<close>; \<open>SpellReader\<close> has no predicate, and its limit is the number of urls it
  was built from.
\<close>

theorem admission_iff:
  "put_todo s url = (if total s < limit s \<and> str_contains ''?p='' url then push s url else s)
   \<and> SpellReader_put_todo s url = (if total s < limit s then push s url else s)
   \<and> total (push s url) = total s + 1
   \<and> items (todo (push s url)) = items (todo s) @ [url]
   \<and> push s url \<noteq> s
   \<and> limit (SpellReader_init urls ls w) = int (length urls)"
  by (simp add: put_todo_def SpellReader_put_todo_def push_neq)
     (simp add: push_def queue_put_def SpellReader_init_def Crawler_init_def)

theorem admission_iff_witness:
  "put_todo (Crawler_init [] 5 250) ''https://playorna.com/codex/spells/?p=2''
     = push (Crawler_init [] 5 250) ''https://playorna.com/codex/spells/?p=2''
   \<and> put_todo (Crawler_init [] 5 250) ''https://playorna.com/codex/spells/''
     = Crawler_init [] 5 250
   \<and> SpellReader_put_todo (SpellReader_init [''a''] [''en''] 5) ''a''
     = push (SpellReader_init [''a''] [''en''] 5) ''a''
   \<and> SpellReader_put_todo (SpellReader_init [] [''en''] 5) ''a''
     = SpellReader_init [] [''en''] 5"
  using admission_iff [of "Crawler_init [] 5 250" "''https://playorna.com/codex/spells/?p=2''"]
        admission_iff [of "Crawler_init [] 5 250" "''https://playorna.com/codex/spells/''"]
        admission_iff [of "SpellReader_init [''a''] [''en''] 5" "''a''"]
        admission_iff [of "SpellReader_init [] [''en''] 5" "''a''"]
  by (simp add: Crawler_init_def SpellReader_init_def startswith_def)

text \<open>
  C1. In every state of a crawl of the default \<open>Crawler\<close>, no address occurs twice among
  the arguments of all \<open>put\<close> calls made so far, and none occurs twice among the
  results of all \<open>get\<close> calls; the queue is first-in first-out, and every address that
  was put is in the seen set.
\<close>

theorem enqueued_at_most_once:
  "reachable (Crawler_init urls w lim) c \<Longrightarrow>
     distinct (put_log (todo (self c))) \<and> distinct (get_log (todo (self c)))
     \<and> put_log (todo (self c)) = get_log (todo (self c)) @ items (todo (self c))
     \<and> set (put_log (todo (self c))) \<subseteq> seen (self c)"
proof -
  assume "reachable (Crawler_init urls w lim) c"
  then have "inv (Crawler_init urls w lim) c" using inv_crawl by blast
  then have ci: "cinv (self c) (flying c)" by (simp add: inv_def)
  from cinvD(1-6) [OF ci] show ?thesis by auto
qed

text \<open>
  In the example crawl the visit of the seed finds the seed again and one new address:
  only the new address is put.
\<close>

theorem enqueued_at_most_once_witness:
  "reachable (Crawler_init [''a?p=1'', ''b''] 1 5) example_visited
   \<and> distinct (put_log (todo (self example_visited)))
   \<and> distinct (get_log (todo (self example_visited)))
   \<and> put_log (todo (self example_visited)) = [''a?p=1'', ''c?p=2'']
   \<and> get_log (todo (self example_visited)) = [''a?p=1'']"
  using enqueued_at_most_once [of "[''a?p=1'', ''b'']" 1 5 example_visited] example_reachable(3)
  by (simp add: example_crawler_def) (simp add: example_visited_eq)

text \<open>
  C2 as stated fails: with two seeds and a limit of one, \<open>run\<close> leaves two addresses in
  the seen set.
\<close>

theorem seen_exceeds_cap:
  "reachable cap_example (run_begin (program_init cap_example))
   \<and> \<not> (int (card (done_set (self (run_begin (program_init cap_example)))))
          \<le> int (card (seen (self (run_begin (program_init cap_example)))))
        \<and> int (card (seen (self (run_begin (program_init cap_example)))))
          \<le> limit (self (run_begin (program_init cap_example))))"
proof -
  have "step (program_init cap_example) (run_begin (program_init cap_example))"
    by (rule step.run_begins) (simp add: program_init_def)
  then have "reachable cap_example (run_begin (program_init cap_example))"
    unfolding reachable_def by (rule r_into_rtranclp)
  moreover have "seen (self (run_begin (program_init cap_example))) = {''a?p=1'', ''b?p=2''}"
    "limit (self (run_begin (program_init cap_example))) = 1"
    by (simp_all add: cap_example_def run_begin_def program_init_def
      Crawler_init_def on_found_links_def Queue_def self_put_todo_def put_todo_def push_def
      queue_put_def startswith_def Let_def run_cancel_def insert_commute del: set_filter)
  ultimately show ?thesis by simp
qed

text \<open>
  C2, amended. In every state of every crawl the done set is a subset of the finite seen
  set, so it is no larger; the done set is no larger than the discovery counter, which is
  at most the limit when the limit is not negative. The seen set is not bounded by the
  limit.
\<close>

theorem done_le_seen:
  assumes "s0 = Crawler_init urls w lim \<or> s0 = SpellReader_init urls ls w" "reachable s0 c"
  shows "finite (seen (self c)) \<and> done_set (self c) \<subseteq> seen (self c)
     \<and> card (done_set (self c)) \<le> card (seen (self c))
     \<and> int (card (done_set (self c))) \<le> total (self c)
     \<and> total (self c) \<le> max 0 (limit s0)"
proof -
  have i: "inv s0 c" by (rule inv_crawl [OF assms])
  then have ci: "cinv (self c) (flying c)" and l: "limit (self c) = limit s0"
    by (simp_all add: inv_def same_config_def)
  note d = cinvD [OF ci]
  have sub: "done_set (self c) \<subseteq> seen (self c)" using d(9) d(5) by blast
  have "card (done_set (self c)) \<le> card (set (get_log (todo (self c))))"
    by (rule card_mono) (use d(9) in simp_all)
  also have "\<dots> \<le> length (get_log (todo (self c)))" by (rule card_length)
  also have "\<dots> \<le> length (put_log (todo (self c)))" by (simp add: d(1))
  finally have "int (card (done_set (self c))) \<le> total (self c)" by (simp add: d(7))
  then show ?thesis using d(13) sub d(8) l by (simp add: card_mono)
qed

text \<open>The example crawl after its first visit: one address done, three seen.\<close>

theorem done_le_seen_witness:
  "reachable (Crawler_init [''a?p=1'', ''b''] 1 5) example_visited
   \<and> done_set (self example_visited) = {''a?p=1''}
   \<and> card (done_set (self example_visited)) \<le> card (seen (self example_visited))
   \<and> int (card (done_set (self example_visited))) \<le> total (self example_visited)
   \<and> total (self example_visited) \<le> 5"
  using done_le_seen [where ?s0.0 = "Crawler_init [''a?p=1'', ''b''] 1 5" and urls = "[''a?p=1'', ''b'']"
      and w = 1 and lim = 5 and c = example_visited]
    example_reachable(3)
  by (simp add: example_crawler_def) (simp add: example_visited_eq Crawler_init_def)

text \<open>
  C3 as stated fails for a negative limit: the counter of a new crawler is 0, which
  exceeds a limit of -1.
\<close>

theorem counter_exceeds_negative_cap:
  "reachable (Crawler_init [] 10 (- 1)) (program_init (Crawler_init [] 10 (- 1)))
   \<and> \<not> total (self (program_init (Crawler_init [] 10 (- 1))))
         \<le> limit (self (program_init (Crawler_init [] 10 (- 1))))"
  by (simp add: reachable_def program_init_def Crawler_init_def)

text \<open>
  C3, amended. The discovery counter starts at 0 and in every state of every crawl equals
  the number of addresses put on the frontier so far; it never exceeds the limit when the
  limit is not negative; and once it has reached the limit, \<open>put_todo\<close> of either class
  leaves the crawler unchanged, and neither the counter nor the list of addresses put
  changes in any later state.
\<close>

theorem discovery_counter:
  assumes "s0 = Crawler_init urls w lim \<or> s0 = SpellReader_init urls ls w" "reachable s0 c"
  shows "total s0 = 0
     \<and> total (self c) = int (length (put_log (todo (self c))))
     \<and> limit (self c) = limit s0
     \<and> (0 \<le> limit s0 \<longrightarrow> total (self c) \<le> limit s0)
     \<and> (limit (self c) \<le> total (self c) \<longrightarrow>
          put_todo (self c) url = self c \<and> SpellReader_put_todo (self c) url = self c
          \<and> (\<forall>c'. step\<^sup>*\<^sup>* c c' \<longrightarrow> total (self c') = total (self c)
                 \<and> put_log (todo (self c')) = put_log (todo (self c))
                 \<and> limit (self c') \<le> total (self c')))"
proof -
  have i: "inv s0 c" by (rule inv_crawl [OF assms])
  then have ci: "cinv (self c) (flying c)" and l: "limit (self c) = limit s0"
    by (simp_all add: inv_def same_config_def)
  note d = cinvD [OF ci]
  have z: "total s0 = 0" using assms(1) by (auto simp: Crawler_init_def SpellReader_init_def)
  have p: "total (self c) = int (length (put_log (todo (self c))))" by (rule d(7))
  have b: "0 \<le> limit s0 \<longrightarrow> total (self c) \<le> limit s0" using d(8) l by auto
  have n: "limit (self c) \<le> total (self c) \<longrightarrow>
      put_todo (self c) url = self c \<and> SpellReader_put_todo (self c) url = self c"
    by (simp add: put_todo_def SpellReader_put_todo_def)
  have k: "limit (self c) \<le> total (self c) \<longrightarrow> (\<forall>c'. step\<^sup>*\<^sup>* c c' \<longrightarrow> total (self c') = total (self c)
                 \<and> put_log (todo (self c')) = put_log (todo (self c))
                 \<and> limit (self c') \<le> total (self c'))"
    using capped_steps [OF i] by metis
  from z p l b n k show ?thesis by blast
qed

text \<open>With two seeds and a limit of one, the second seed is not admitted.\<close>

theorem discovery_counter_witness:
  "reachable cap_example (run_begin (program_init cap_example))
   \<and> total (self (run_begin (program_init cap_example))) = 1
   \<and> limit (self (run_begin (program_init cap_example))) = 1
   \<and> put_todo (self (run_begin (program_init cap_example))) ''b?p=2''
       = self (run_begin (program_init cap_example))"
proof -
  have "step (program_init cap_example) (run_begin (program_init cap_example))"
    by (rule step.run_begins) (simp add: program_init_def)
  then have r: "reachable cap_example (run_begin (program_init cap_example))"
    unfolding reachable_def by (rule r_into_rtranclp)
  have t: "put_log (todo (self (run_begin (program_init cap_example)))) = [''a?p=1'']"
    by (simp add: cap_example_def run_begin_def program_init_def
      Crawler_init_def on_found_links_def Queue_def self_put_todo_def put_todo_def push_def
      queue_put_def startswith_def Let_def run_cancel_def del: set_filter)
  have l: "limit cap_example = 1" by (simp add: cap_example_def Crawler_init_def)
  have i: "cap_example = Crawler_init [''a?p=1'', ''b?p=2''] 1 1 \<or> cap_example = SpellReader_init [''a?p=1'', ''b?p=2''] [] 1"
    by (simp add: cap_example_def)
  from discovery_counter [OF i r, of "''b?p=2''"]
  have "total (self (run_begin (program_init cap_example)))
          = int (length (put_log (todo (self (run_begin (program_init cap_example))))))"
    "limit (self (run_begin (program_init cap_example))) = limit cap_example"
    "limit (self (run_begin (program_init cap_example))) \<le> total (self (run_begin (program_init cap_example)))
      \<longrightarrow> put_todo (self (run_begin (program_init cap_example))) ''b?p=2''
            = self (run_begin (program_init cap_example))"
    by blast+
  then show ?thesis using r t l by simp
qed

text \<open>
  C9. In a crawl of the default \<open>Crawler\<close>, once \<open>run\<close> has started, a seed that does not
  contain \<open>?p=\<close> is in the seen set, and it was never put on the frontier, is not
  queued, was never dequeued, is not being visited and is not done.
\<close>

theorem seed_without_marker:
  assumes "reachable (Crawler_init urls w lim) c" "pc c \<noteq> Not_started"
    "u \<in> set urls" "\<not> str_contains ''?p='' u"
  shows "u \<in> seen (self c) \<and> u \<notin> set (put_log (todo (self c)))
     \<and> u \<notin> set (items (todo (self c))) \<and> u \<notin> set (get_log (todo (self c)))
     \<and> u \<notin> set (in_flight c) \<and> u \<notin> done_set (self c)"
proof -
  let ?s0 = "Crawler_init urls w lim"
  have i: "inv ?s0 c" using assms(1) inv_crawl by blast
  then have ci: "cinv (self c) (flying c)" and k: "cls (self c) = Crawler"
    and s: "set (start_urls ?s0) \<subseteq> seen (self c)"
    using assms(2) by (simp_all add: inv_def same_config_def Crawler_init_def)
  note d = cinvD [OF ci]
  have p: "u \<notin> set (put_log (todo (self c)))" using d(14) [OF k] assms(4) by blast
  have a: "u \<in> seen (self c)" using s assms(3) by (auto simp: Crawler_init_def)
  have g: "u \<notin> set (get_log (todo (self c)))" "u \<notin> set (items (todo (self c)))"
    using p by (simp_all add: d(1))
  have f: "u \<notin> set (in_flight c)" using g(1) inv_flight(1) [OF i] by blast
  have "u \<notin> done_set (self c)" using g(1) d(9) by blast
  with p a g f show ?thesis by simp
qed

text \<open>The seed \<open>b\<close> of the example crawl.\<close>

theorem seed_without_marker_witness:
  "reachable (Crawler_init [''a?p=1'', ''b''] 1 5) example_visited
   \<and> pc example_visited \<noteq> Not_started \<and> ''b'' \<in> set [''a?p=1'', ''b'']
   \<and> \<not> str_contains ''?p='' ''b''
   \<and> ''b'' \<in> seen (self example_visited) \<and> ''b'' \<notin> set (put_log (todo (self example_visited)))
   \<and> ''b'' \<notin> done_set (self example_visited)"
proof -
  have r: "reachable (Crawler_init [''a?p=1'', ''b''] 1 5) example_visited"
    using example_reachable(3) by (simp add: example_crawler_def)
  have p: "pc example_visited \<noteq> Not_started" by (simp add: example_visited_eq)
  have m: "''b'' \<in> set [''a?p=1'', ''b'']" "\<not> str_contains ''?p='' ''b''"
    by (simp_all add: startswith_def)
  from seed_without_marker [OF r p m] show ?thesis using r p m by simp
qed

text \<open>
  C7. In every crawl, when the visit of a dequeued address \<open>u\<close> raises an instance of
  \<open>Exception\<close>, that is a step of the program after which the worker waits in
  \<open>get\<close> again (it has neither crashed nor left its loop) and the crawler is unchanged
  but for \<open>_unfinished_tasks\<close>, which \<open>task_done\<close> has decremented. \<open>task_done\<close>
  succeeds after every visit, whatever its outcome. In every later state \<open>u\<close> is in the
  seen set, not in the done set, not queued and not in flight, and it was dequeued exactly
  once. The done set grows only by the address of a visit that returned.
\<close>

theorem failed_visit:
  assumes "s0 = Crawler_init urls w lim \<or> s0 = SpellReader_init urls ls w" "reachable s0 c"
    "i < length (workers c)" "status (workers c ! i) = Crawling u" "is_Exception e"
  shows "step c (worker_finish i (Inl e) u c)
     \<and> status (workers (worker_finish i (Inl e) u c) ! i) = Getting
     \<and> 0 < unfinished_tasks (todo (self c))
     \<and> self (worker_finish i (Inl e) u c)
         = (self c)\<lparr>todo := (todo (self c))\<lparr>unfinished_tasks := unfinished_tasks (todo (self c)) - 1\<rparr>\<rparr>
     \<and> (\<forall>a. \<exists>s1 q. (self_crawl a (self c) u = Inr s1 \<or> (\<exists>x. a = Inl x) \<and> s1 = self c)
             \<and> task_done (todo s1) = Inr q
             \<and> self (worker_finish i a u c) = s1\<lparr>todo := q\<rparr>)
     \<and> (\<forall>c'. step\<^sup>*\<^sup>* (worker_finish i (Inl e) u c) c' \<longrightarrow>
            u \<in> seen (self c') \<and> u \<notin> done_set (self c')
            \<and> u \<notin> set (items (todo (self c'))) \<and> u \<notin> set (in_flight c')
            \<and> count_list (get_log (todo (self c'))) u = 1)
     \<and> (\<forall>c1 c2 v. step\<^sup>*\<^sup>* c c1 \<longrightarrow> step c1 c2 \<longrightarrow> v \<in> done_set (self c2) \<longrightarrow> v \<notin> done_set (self c1) \<longrightarrow>
            (\<exists>j links infos. j < length (workers c1) \<and> status (workers c1 ! j) = Crawling v
                \<and> c2 = worker_finish j (Inr (links, infos)) v c1))"
proof -
  let ?c' = "worker_finish i (Inl e) u c"
  have i: "inv s0 c" by (rule inv_crawl [OF assms(1,2)])
  note k = crawling_not_cancelled [OF i assms(3,4)]
  note f = failed_visit_state [OF i assms(3,4,5)]
  have ne: "Inl e \<noteq> (Inl CancelledError :: answer)" using assms(5) by auto
  have st: "step c ?c'" by (rule step.worker_visits [OF assms(3,4) k(1) ne])
  have g: "status (workers ?c' ! i) = Getting" using assms(3) by (simp add: f(1) set_status_def)
  have s: "self ?c' = (self c)\<lparr>todo := (todo (self c))\<lparr>unfinished_tasks := unfinished_tasks (todo (self c)) - 1\<rparr>\<rparr>"
    by (simp add: f(1) ack_def)
  have i': "inv s0 ?c'" by (rule inv_step [OF i st])
  have later: "\<forall>c'. step\<^sup>*\<^sup>* ?c' c' \<longrightarrow>
            u \<in> seen (self c') \<and> u \<notin> done_set (self c')
            \<and> u \<notin> set (items (todo (self c'))) \<and> u \<notin> set (in_flight c')
            \<and> count_list (get_log (todo (self c'))) u = 1"
  proof (intro allI impI)
    fix c' assume r: "step\<^sup>*\<^sup>* ?c' c'"
    have a: "abandoned u c'" by (rule abandoned_steps [OF i' r f(2)])
    have "inv s0 c'" by (rule inv_steps [OF i' r])
    then have ci: "cinv (self c') (flying c')" by (simp add: inv_def)
    have "u \<in> set (get_log (todo (self c)))"
      using inv_flight(1) [OF i] flying_Crawling [OF assms(3,4)] by (auto simp: flying_def)
    then have "u \<in> set (get_log (todo (self c')))"
      using get_log_steps [OF i' r] get_log_steps [OF i r_into_rtranclp [of step, OF st]] by blast
    then have "count_list (get_log (todo (self c'))) u = 1"
      using cinvD(2) [OF ci] by (metis count_mset distinct_count_atmost_1)
    with a show "u \<in> seen (self c') \<and> u \<notin> done_set (self c')
            \<and> u \<notin> set (items (todo (self c'))) \<and> u \<notin> set (in_flight c')
            \<and> count_list (get_log (todo (self c'))) u = 1" by (simp add: abandoned_def)
  qed
  have ack: "\<forall>a. \<exists>s1 q. (self_crawl a (self c) u = Inr s1 \<or> (\<exists>x. a = Inl x) \<and> s1 = self c)
             \<and> task_done (todo s1) = Inr q
             \<and> self (worker_finish i a u c) = s1\<lparr>todo := q\<rparr>"
    using try_acknowledges [OF k(2)] by (simp add: self_worker_finish)
  have only: "\<forall>c1 c2 v. step\<^sup>*\<^sup>* c c1 \<longrightarrow> step c1 c2 \<longrightarrow> v \<in> done_set (self c2) \<longrightarrow> v \<notin> done_set (self c1) \<longrightarrow>
            (\<exists>j links infos. j < length (workers c1) \<and> status (workers c1 ! j) = Crawling v
                \<and> c2 = worker_finish j (Inr (links, infos)) v c1)"
  proof (intro allI impI)
    fix c1 c2 v
    assume a: "step\<^sup>*\<^sup>* c c1" "step c1 c2" "v \<in> done_set (self c2)" "v \<notin> done_set (self c1)"
    have "inv s0 c1" by (rule inv_steps [OF i a(1)])
    from step_self [OF this a(2)] a(3,4)
    show "\<exists>j links infos. j < length (workers c1) \<and> status (workers c1 ! j) = Crawling v
                \<and> c2 = worker_finish j (Inr (links, infos)) v c1"
      by (auto dest: get_fields(5))
  qed
  from st g k(2) s ack later only show ?thesis by blast
qed

text \<open>The visit of the seed of the example crawl fails with a timeout.\<close>

theorem failed_visit_witness:
  "reachable (Crawler_init [''a?p=1'', ''b''] 1 5) example_visiting
   \<and> status (workers example_visiting ! 0) = Crawling ''a?p=1''
   \<and> is_Exception (OtherException ''timeout'')
   \<and> step example_visiting example_failed
   \<and> status (workers example_failed ! 0) = Getting
   \<and> unfinished_tasks (todo (self example_visiting)) = 1
   \<and> unfinished_tasks (todo (self example_failed)) = 0
   \<and> ''a?p=1'' \<in> seen (self example_failed)
   \<and> ''a?p=1'' \<notin> done_set (self example_failed)
   \<and> ''a?p=1'' \<notin> set (items (todo (self example_failed)))"
proof -
  have r: "reachable (Crawler_init [''a?p=1'', ''b''] 1 5) example_visiting"
    using example_reachable(2) by (simp add: example_crawler_def)
  have h: "0 < length (workers example_visiting)"
    "status (workers example_visiting ! 0) = Crawling ''a?p=1''"
    "is_Exception (OtherException ''timeout'')"
    by (simp_all add: example_visiting_eq)
  from failed_visit [OF disjI1 [OF refl] r h]
  have "step example_visiting example_failed"
    "status (workers example_failed ! 0) = Getting"
    "\<forall>c'. step\<^sup>*\<^sup>* example_failed c' \<longrightarrow>
            ''a?p=1'' \<in> seen (self c') \<and> ''a?p=1'' \<notin> done_set (self c')
            \<and> ''a?p=1'' \<notin> set (items (todo (self c'))) \<and> ''a?p=1'' \<notin> set (in_flight c')
            \<and> count_list (get_log (todo (self c'))) ''a?p=1'' = 1"
    unfolding example_failed_def [symmetric] by blast+
  then show ?thesis using r h by (auto simp: example_visiting_eq example_failed_eq)
qed

text \<open>
  C8 as stated fails: in the example crawl \<open>run\<close> returns while the worker is still
  suspended in \<open>get\<close>; it has not left its loop.
\<close>

theorem run_returns_before_workers_exit:
  "reachable example_crawler (run_cancel example_failed)
   \<and> pc (run_cancel example_failed) = Returned
   \<and> status (workers (run_cancel example_failed) ! 0) = Getting
   \<and> status (workers (run_cancel example_failed) ! 0) \<noteq> Exited"
proof -
  have "step example_failed (run_cancel example_failed)"
    by (rule step.join_returns) (simp_all add: example_failed_eq)
  with example_reachable(4) have "reachable example_crawler (run_cancel example_failed)"
    unfolding reachable_def by (rule rtranclp.rtrancl_into_rtrancl)
  then show ?thesis by (simp add: run_cancel_def example_failed_eq cancel_def)
qed

text \<open>
  C8, amended. \<open>run\<close> first calls \<open>on_found_links\<close> on the seeds and creates
  \<open>num_workers\<close> workers (none if that is negative). \<open>_unfinished_tasks\<close> always counts
  the queued and the in-flight addresses. Until \<open>run\<close> returns no worker is cancelled or
  has exited. \<open>run\<close> leaves \<open>join\<close> only when the frontier is empty and no address is
  in flight, and then cancels every worker. When \<open>run\<close> returns, every worker is
  cancelled and none has exited yet: \<open>run\<close> does not wait for the workers.
\<close>

theorem run_contract:
  assumes "s0 = Crawler_init urls w lim \<or> s0 = SpellReader_init urls ls w" "reachable s0 c"
  shows "self (run_begin (program_init s0)) = on_found_links s0 (start_urls s0)
     \<and> length (workers (run_begin (program_init s0))) = nat (num_workers s0)
     \<and> (pc c \<noteq> Not_started \<longrightarrow> length (workers c) = nat (num_workers s0))
     \<and> unfinished_tasks (todo (self c)) = length (items (todo (self c))) + length (in_flight c)
     \<and> (pc c \<noteq> Returned \<longrightarrow> (\<forall>x\<in>set (workers c). \<not> must_cancel x \<and> status x \<noteq> Exited))
     \<and> (\<forall>c'. pc c = Joining \<longrightarrow> step c c' \<longrightarrow> pc c' \<noteq> Joining \<longrightarrow>
            items (todo (self c)) = [] \<and> in_flight c = [] \<and> c' = run_cancel c)
     \<and> (pc c = Returned \<longrightarrow>
            items (todo (self c)) = [] \<and> in_flight c = [] \<and> (\<forall>x\<in>set (workers c). must_cancel x))
     \<and> (\<forall>c'. pc c \<noteq> Returned \<longrightarrow> step c c' \<longrightarrow> pc c' = Returned \<longrightarrow>
            (\<forall>x\<in>set (workers c'). must_cancel x \<and> status x \<noteq> Exited))"
proof -
  have i: "inv s0 c" by (rule inv_crawl [OF assms])
  note fl = inv_flight(2) [OF i]
  have a: "self (run_begin (program_init s0)) = on_found_links s0 (start_urls s0)"
    "length (workers (run_begin (program_init s0))) = nat (num_workers s0)"
    using run_begin_fields(1,2) [of "program_init s0"] by (simp_all add: program_init_def)
  have b: "pc c \<noteq> Not_started \<longrightarrow> length (workers c) = nat (num_workers s0)"
    using i by (simp add: inv_def)
  have d: "pc c \<noteq> Returned \<longrightarrow> (\<forall>x\<in>set (workers c). \<not> must_cancel x \<and> status x \<noteq> Exited)"
    using i by (simp add: inv_def)
  have e: "\<forall>c'. pc c = Joining \<longrightarrow> step c c' \<longrightarrow> pc c' \<noteq> Joining \<longrightarrow>
            items (todo (self c)) = [] \<and> in_flight c = [] \<and> c' = run_cancel c"
  proof (intro allI impI)
    fix c' assume "pc c = Joining" "step c c'" "pc c' \<noteq> Joining"
    with pc_step [of c c'] have "unfinished_tasks (todo (self c)) = 0 \<and> c' = run_cancel c" by auto
    with fl show "items (todo (self c)) = [] \<and> in_flight c = [] \<and> c' = run_cancel c" by simp
  qed
  have f: "pc c = Returned \<longrightarrow>
            items (todo (self c)) = [] \<and> in_flight c = [] \<and> (\<forall>x\<in>set (workers c). must_cancel x)"
    using i fl by (simp add: inv_def)
  have g: "\<forall>c'. pc c \<noteq> Returned \<longrightarrow> step c c' \<longrightarrow> pc c' = Returned \<longrightarrow>
            (\<forall>x\<in>set (workers c'). must_cancel x \<and> status x \<noteq> Exited)"
  proof (intro allI impI ballI)
    fix c' x assume h: "pc c \<noteq> Returned" "step c c'" "pc c' = Returned" "x \<in> set (workers c')"
    have "inv s0 c'" by (rule inv_step [OF i h(2)])
    with h(3,4) have m: "must_cancel x" by (simp add: inv_def)
    from pc_step [OF h(2)] h(1,3) consider "c' = run_cancel c" | "c' = run_begin c" by auto
    then have "status x \<noteq> Exited"
    proof cases
      case 1
      with h(4) obtain y where "y \<in> set (workers c)" "x = cancel y" by (auto simp: run_cancel_def)
      with d h(1) show ?thesis by (simp add: cancel_must(2))
    next
      case 2
      with h(4) run_begin_fields(3) [of x c] show ?thesis by simp
    qed
    with m show "must_cancel x \<and> status x \<noteq> Exited" ..
  qed
  from a b fl d e f g show ?thesis by blast
qed

text \<open>The example crawl after the failed visit: \<open>join\<close> returns.\<close>

theorem run_contract_witness:
  "reachable (Crawler_init [''a?p=1'', ''b''] 1 5) example_failed
   \<and> pc example_failed = Joining
   \<and> step example_failed (run_cancel example_failed)
   \<and> pc (run_cancel example_failed) = Returned
   \<and> length (workers example_failed) = 1
   \<and> items (todo (self example_failed)) = [] \<and> in_flight example_failed = []
   \<and> must_cancel (workers (run_cancel example_failed) ! 0)
   \<and> status (workers (run_cancel example_failed) ! 0) \<noteq> Exited"
proof -
  have r: "reachable (Crawler_init [''a?p=1'', ''b''] 1 5) example_failed"
    using example_reachable(4) by (simp add: example_crawler_def)
  have s: "step example_failed (run_cancel example_failed)"
    by (rule step.join_returns) (simp_all add: example_failed_eq)
  have p: "pc example_failed = Joining" "pc (run_cancel example_failed) = Returned"
    "pc (run_cancel example_failed) \<noteq> Joining" "pc example_failed \<noteq> Returned"
    "pc example_failed \<noteq> Not_started"
    "workers (run_cancel example_failed) ! 0 \<in> set (workers (run_cancel example_failed))"
    by (simp_all add: example_failed_eq run_cancel_def)
  from run_contract [OF disjI1 [OF refl] r]
  have "length (workers example_failed) = nat (num_workers (Crawler_init [''a?p=1'', ''b''] 1 5))"
    "items (todo (self example_failed)) = [] \<and> in_flight example_failed = []"
    "\<forall>x\<in>set (workers (run_cancel example_failed)). must_cancel x \<and> status x \<noteq> Exited"
    using s p by blast+
  then show ?thesis using r s p by (simp add: Crawler_init_def)
qed

text \<open>
  C5 as stated fails: with the filter that \<open>main\<close> builds, the link \<open>x.html\<close> on
  \<open>https://playorna.com/codex/\<close> is accepted, although the substring after the last
  \<open>.\<close> of its final path segment, \<open>html\<close>, is not among the allowed file types
  \<open>.html\<close>, \<open>.php\<close> and the empty string.
\<close>

theorem extension_keeps_dot:
  "filter_url example_lib main_filterer ''https://playorna.com/codex/'' ''x.html''
     = Inr (Some ''https://playorna.com/codex/x.html'')
   \<and> urlparse example_lib ''https://playorna.com/codex/x.html'' []
     = Inr \<lparr>scheme = ''https'', netloc = ''playorna.com'', path = ''/codex/x.html'',
            query = [], fragment = [], params = []\<rparr>
   \<and> spec_extension ''/codex/x.html'' = ''html''
   \<and> spec_rejects main_filterer
        \<lparr>scheme = ''https'', netloc = ''playorna.com'', path = ''/codex/x.html'',
            query = [], fragment = [], params = []\<rparr> ''https://playorna.com/codex/x.html''"
  by code_simp

text \<open>
  C5, amended. When resolving the candidate against the base, removing the fragment and
  parsing the result raise no exception, \<open>filter_url\<close> returns \<open>None\<close> iff a rule
  that is set rejects the address, and the resolved address without its fragment
  otherwise: the scheme is outside \<open>allowed_schemes\<close>, or the network location is outside
  \<open>allowed_domains\<close>, or the suffix of the path is outside \<open>allowed_filetypes\<close>, or
  the address contains a blocked phrase as a substring. The returned address contains no
  \<open>#\<close>. The suffix is taken from the last component of the path: it starts at the last
  \<open>.\<close> of that name and includes it, and it is empty when the name has no \<open>.\<close>, or
  when its last \<open>.\<close> is its first or its last character.
\<close>

theorem filter_url_decision:
  assumes "urljoin L base candidate = Inr resolved" "urldefrag L resolved = Inr (url, frag)"
    "urlparse L url [] = Inr parsed"
  shows "filter_url L flt base candidate =
           (if (\<exists>S. allowed_schemes flt = Some S \<and> scheme parsed \<notin> S)
               \<or> (\<exists>S. allowed_domains flt = Some S \<and> netloc parsed \<notin> S)
               \<or> (\<exists>S. allowed_filetypes flt = Some S \<and> path_suffix (path parsed) \<notin> S)
               \<or> (\<exists>S. blocked_phrases flt = Some S \<and> (\<exists>p\<in>S. \<exists>a b. url = a @ p @ b))
            then Inr None else Inr (Some url))
     \<and> CHR ''#'' \<notin> set url
     \<and> (\<forall>stem ext. path_name (path parsed) = stem @ ''.'' @ ext \<and> CHR ''.'' \<notin> set ext \<longrightarrow>
           path_suffix (path parsed) = (if stem \<noteq> [] \<and> ext \<noteq> [] then ''.'' @ ext else []))
     \<and> (CHR ''.'' \<notin> set (path_name (path parsed)) \<longrightarrow> path_suffix (path parsed) = [])"
proof -
  define A where "A \<longleftrightarrow> (\<exists>S. allowed_schemes flt = Some S \<and> scheme parsed \<notin> S)"
  define B where "B \<longleftrightarrow> (\<exists>S. allowed_domains flt = Some S \<and> netloc parsed \<notin> S)"
  define C where "C \<longleftrightarrow> (\<exists>S. allowed_filetypes flt = Some S \<and> path_suffix (path parsed) \<notin> S)"
  define D where "D \<longleftrightarrow> (\<exists>S. blocked_phrases flt = Some S \<and> (\<exists>p\<in>S. \<exists>a b. url = a @ p @ b))"
  have a: "(allowed_schemes flt \<noteq> None \<and> scheme parsed \<notin> the (allowed_schemes flt)) = A"
    unfolding A_def by (rule set_rule)
  have b: "(allowed_domains flt \<noteq> None \<and> netloc parsed \<notin> the (allowed_domains flt)) = B"
    unfolding B_def by (rule set_rule)
  have c: "(allowed_filetypes flt \<noteq> None \<and> path_suffix (path parsed) \<notin> the (allowed_filetypes flt)) = C"
    unfolding C_def by (rule set_rule)
  have d: "(blocked_phrases flt \<noteq> None \<and> (\<exists>p\<in>the (blocked_phrases flt). str_contains p url)) = D"
    unfolding D_def str_contains_iff by (rule phrase_rule)
  have "filter_url L flt base candidate =
     (if A then Inr None else if B then Inr None else if C then Inr None
      else if D then Inr None else Inr (Some url))"
    unfolding filter_url_def assms sum.case prod.case Let_def a b c d by (rule refl)
  then have "filter_url L flt base candidate = (if A \<or> B \<or> C \<or> D then Inr None else Inr (Some url))"
    by simp
  moreover have "CHR ''#'' \<notin> set url" by (rule urldefrag_nohash [OF assms(2)])
  ultimately show ?thesis unfolding A_def B_def C_def D_def
    using path_suffix_dot path_suffix_nodot by blast
qed

text \<open>The link \<open>x.html#top\<close> under the filter of \<open>main\<close>.\<close>

theorem filter_url_decision_witness:
  "urljoin example_lib ''https://playorna.com/codex/'' ''x.html#top'' = Inr ''https://playorna.com/codex/x.html#top''
   \<and> urldefrag example_lib ''https://playorna.com/codex/x.html#top'' = Inr (''https://playorna.com/codex/x.html'', ''top'')
   \<and> filter_url example_lib main_filterer ''https://playorna.com/codex/'' ''x.html#top''
      = Inr (Some ''https://playorna.com/codex/x.html'')
   \<and> path_name ''/codex/x.html'' = ''x'' @ ''.'' @ ''html''
   \<and> path_suffix ''/codex/x.html'' = ''.html''"
proof -
  have h: "urljoin example_lib ''https://playorna.com/codex/'' ''x.html#top'' = Inr ''https://playorna.com/codex/x.html#top''"
    "urldefrag example_lib ''https://playorna.com/codex/x.html#top'' = Inr (''https://playorna.com/codex/x.html'', ''top'')"
    "urlparse example_lib ''https://playorna.com/codex/x.html'' []
     = Inr \<lparr>scheme = ''https'', netloc = ''playorna.com'', path = ''/codex/x.html'',
            query = [], fragment = [], params = []\<rparr>"
    by code_simp+
  have n: "path_name ''/codex/x.html'' = ''x'' @ ''.'' @ ''html''" "CHR ''.'' \<notin> set ''html''"
    by code_simp+
  from filter_url_decision [OF h, of main_filterer]
  have "filter_url example_lib main_filterer ''https://playorna.com/codex/'' ''x.html#top''
      = Inr (Some ''https://playorna.com/codex/x.html'')"
    "path_suffix ''/codex/x.html'' = ''.'' @ ''html''"
    using n by (simp_all add: main_filterer_def Cons_eq_append_conv append_eq_Cons_conv) 
  then show ?thesis using h n by simp
qed

text \<open>
  C6 as stated fails: a link whose network location has an opening bracket and no
  closing one makes \<open>filter_url\<close> raise \<open>ValueError\<close>.
\<close>

theorem filter_url_raises:
  "filter_url example_lib main_filterer ''https://playorna.com/codex/spells/'' ''http://[x''
     = Inl ValueError"
  by code_simp

text \<open>
  C6, amended. For a base and a candidate of ASCII characters other than \<open>[\<close> and
  \<open>]\<close>, \<open>filter_url\<close> returns a value and raises nothing, whatever the filter and
  the library functions. For every base and candidate, an exception of \<open>urljoin\<close> is
  not turned into \<open>None\<close>: it leaves \<open>filter_url\<close>.
\<close>

theorem filter_url_returns:
  "(plain base \<and> plain candidate \<longrightarrow> (\<exists>r. filter_url L flt base candidate = Inr r))
   \<and> (\<forall>e. urljoin L base candidate = Inl e \<longrightarrow> filter_url L flt base candidate = Inl e)"
  using plain_filter_url [of base candidate L flt] by (simp add: filter_url_def)

text \<open>A relative link with a query, and a link with an opening bracket only.\<close>

theorem filter_url_returns_witness:
  "plain ''https://playorna.com/codex/'' \<and> plain ''../items/?p=2''
   \<and> filter_url example_lib main_filterer ''https://playorna.com/codex/'' ''../items/?p=2''
       = Inr (Some ''https://playorna.com/items/?p=2'')
   \<and> urljoin example_lib ''https://playorna.com/codex/'' ''//[x'' = Inl ValueError
   \<and> filter_url example_lib main_filterer ''https://playorna.com/codex/'' ''//[x'' = Inl ValueError"
proof -
  have h: "plain ''https://playorna.com/codex/''" "plain ''../items/?p=2''"
    by code_simp+
  have "filter_url example_lib main_filterer ''https://playorna.com/codex/'' ''../items/?p=2''
       = Inr (Some ''https://playorna.com/items/?p=2'')
     \<or> filter_url example_lib main_filterer ''https://playorna.com/codex/'' ''../items/?p=2'' = Inl ValueError"
    by code_simp
  with filter_url_returns [of "''https://playorna.com/codex/''" "''../items/?p=2''" example_lib main_filterer] h
  have a: "filter_url example_lib main_filterer ''https://playorna.com/codex/'' ''../items/?p=2''
       = Inr (Some ''https://playorna.com/items/?p=2'')" by auto
  have j: "urljoin example_lib ''https://playorna.com/codex/'' ''//[x'' = Inl ValueError"
    by code_simp
  with filter_url_returns [of "''https://playorna.com/codex/''" "''//[x''" example_lib main_filterer]
  have "filter_url example_lib main_filterer ''https://playorna.com/codex/'' ''//[x'' = Inl ValueError"
    by blast
  with h a j show ?thesis by simp
qed

text \<open>
  C10 as stated fails: an absolute link with another scheme than the base is returned as
  it is written, but with a fragment appended it is parsed and rebuilt, which turns the
  scheme into lower case.
\<close>

theorem fragment_changes_result:
  "filter_url example_lib main_filterer ''https://playorna.com/codex/'' ''HTTP://playorna.com/x''
     = Inr (Some ''HTTP://playorna.com/x'')
   \<and> filter_url example_lib main_filterer ''https://playorna.com/codex/'' (''HTTP://playorna.com/x'' @ ''#top'')
     = Inr (Some ''http://playorna.com/x'')"
  by code_simp

text \<open>
  C10, amended. \<open>filter_url\<close> gives the same result for a candidate with a fragment
  and for the same candidate with any other fragment, provided that both fragments have a
  character other than tab, carriage return and line feed; and an address that
  \<open>filter_url\<close> returns contains no \<open>#\<close>. So what a fragment contains, a blocked
  phrase for instance, never decides the result.
\<close>

theorem fragment_replaced:
  assumes "CHR ''#'' \<notin> set c" "remove_unsafe f1 \<noteq> []" "remove_unsafe f2 \<noteq> []"
  shows "filter_url L flt base (c @ ''#'' @ f1) = filter_url L flt base (c @ ''#'' @ f2)
     \<and> (\<forall>r. filter_url L flt base (c @ ''#'' @ f1) = Inr (Some r) \<longrightarrow> CHR ''#'' \<notin> set r)"
  using filter_url_frag [OF assms(1,2), of L flt base] filter_url_frag [OF assms(1,3), of L flt base]
    filter_url_nohash [of L flt base "c @ ''#'' @ f1"]
  by simp

text \<open>The fragment \<open>lang\<close> is a blocked phrase of the filter of \<open>main\<close>.\<close>

theorem fragment_replaced_witness:
  "CHR ''#'' \<notin> set ''x.html'' \<and> remove_unsafe ''top'' \<noteq> [] \<and> remove_unsafe ''lang'' \<noteq> []
   \<and> filter_url example_lib main_filterer ''https://playorna.com/codex/'' ''x.html#top''
       = Inr (Some ''https://playorna.com/codex/x.html'')
   \<and> filter_url example_lib main_filterer ''https://playorna.com/codex/'' ''x.html#lang''
       = Inr (Some ''https://playorna.com/codex/x.html'')"
proof -
  have h: "CHR ''#'' \<notin> set ''x.html''" "remove_unsafe ''top'' \<noteq> []" "remove_unsafe ''lang'' \<noteq> []"
    by code_simp+
  have e: "filter_url example_lib main_filterer ''https://playorna.com/codex/'' ''x.html#top''
       = Inr (Some ''https://playorna.com/codex/x.html'')"
    by code_simp
  from fragment_replaced [OF h, of example_lib main_filterer "''https://playorna.com/codex/''"] e
  show ?thesis using h by simp
qed

end
